theory Spec2Isabelle
  imports Main
begin

section \<open>Python string primitives\<close>

text \<open>
  A Python \<open>str\<close> is a sequence of code points. The model represents a string as a
  \<^typ>\<open>string\<close>, one \<^typ>\<open>char\<close> per code point, and therefore covers the
  code points below 256. On that range \<open>str.isspace\<close>, the \<open>\s\<close> class of a
  \<open>str\<close> pattern, \<open>str.strip()\<close> and \<open>str.split()\<close> agree on one set of
  whitespace characters (TAB, LF, VT, FF, CR, FS, GS, RS, US, SPACE, NEL, NBSP), and
  \<open>\d\<close> matches exactly the ASCII digits.
\<close>

definition isspace :: "char \<Rightarrow> bool" where
  "isspace c = ((of_char c :: nat) \<in> {9, 10, 11, 12, 13, 28, 29, 30, 31, 32, 133, 160})"

definition isdecimal :: "char \<Rightarrow> bool" where
  "isdecimal c = (48 \<le> (of_char c :: nat) \<and> (of_char c :: nat) \<le> 57)"

text \<open>\<open>s.strip()\<close>: drop leading and trailing whitespace.\<close>

definition py_strip :: "string \<Rightarrow> string" where
  "py_strip s = rev (dropWhile isspace (rev (dropWhile isspace s)))"

text \<open>
  \<open>s.split(sep)\<close> for a one-character separator: never empty, keeps empty pieces.
  The recursive result always has a first piece, to which the character is added.
\<close>

fun split_on :: "char \<Rightarrow> string \<Rightarrow> string list" where
  "split_on sep [] = [[]]"
| "split_on sep (x # xs) =
     (if x = sep then [] # split_on sep xs
      else (case split_on sep xs of [] \<Rightarrow> [[x]] | piece # pieces \<Rightarrow> (x # piece) # pieces))"

text \<open>\<open>s.split()\<close>: the maximal runs of non-whitespace characters.\<close>

function split_ws :: "string \<Rightarrow> string list" where
  "split_ws s =
     (case dropWhile isspace s of
        [] \<Rightarrow> []
      | c # r \<Rightarrow> takeWhile (\<lambda>x. \<not> isspace x) (c # r)
                 # split_ws (dropWhile (\<lambda>x. \<not> isspace x) (c # r)))"
  by pat_completeness auto
termination
proof (relation "measure length")
  show "wf (measure length)" by simp
next
  fix s :: string and c r
  assume d: "dropWhile isspace s = c # r"
  have "length (dropWhile (\<lambda>x. \<not> isspace x) (c # r)) \<le> length (c # r)"
    by (rule length_dropWhile_le)
  moreover have "\<not> isspace c"
    using d hd_dropWhile [of isspace s] by auto
  then have "dropWhile (\<lambda>x. \<not> isspace x) (c # r) = dropWhile (\<lambda>x. \<not> isspace x) r"
    by simp
  moreover have "length (dropWhile (\<lambda>x. \<not> isspace x) r) \<le> length r"
    by (rule length_dropWhile_le)
  moreover have "length (c # r) \<le> length s"
    using length_dropWhile_le [of isspace s] d by simp
  ultimately show "(dropWhile (\<lambda>x. \<not> isspace x) (c # r), s) \<in> measure length"
    by simp
qed

declare split_ws.simps [simp del]

text \<open>Formatting an integer in an f-string: decimal digits, a minus sign when negative.\<close>

definition digit_char :: "nat \<Rightarrow> char" where
  "digit_char d = ''0123456789'' ! d"

fun str_nat :: "nat \<Rightarrow> string" where
  "str_nat n =
     (if n < 10 then [digit_char n]
      else str_nat (n div 10) @ [digit_char (n mod 10)])"

declare str_nat.simps [simp del]

definition str_int :: "int \<Rightarrow> string" where
  "str_int i = (if i < 0 then CHR ''-'' # str_nat (nat (- i)) else str_nat (nat i))"

text \<open>
  \<open>int(s)\<close> on a string: surrounding whitespace is ignored, one sign is allowed, and
  the digits may be grouped by single underscores. Anything else raises \<open>ValueError\<close>,
  here \<open>None\<close>. The interpreter's configurable cap on the number of digits it
  converts is a resource limit and is not part of the model.
\<close>

fun digits_ok :: "string \<Rightarrow> bool" where
  "digits_ok [] = False"
| "digits_ok [c] = isdecimal c"
| "digits_ok (c # d # r) =
     (if isdecimal c then (if d = CHR ''_'' then digits_ok r else digits_ok (d # r))
      else False)"

definition digit_val :: "char \<Rightarrow> int" where
  "digit_val c = int (of_char c) - 48"

definition digits_value :: "string \<Rightarrow> int" where
  "digits_value s = foldl (\<lambda>acc c. 10 * acc + digit_val c) 0 (filter isdecimal s)"

definition py_int :: "string \<Rightarrow> int option" where
  "py_int s =
     (case py_strip s of
        [] \<Rightarrow> None
      | c # r \<Rightarrow>
          if c = CHR ''-'' then (if digits_ok r then Some (- digits_value r) else None)
          else if c = CHR ''+'' then (if digits_ok r then Some (digits_value r) else None)
          else (if digits_ok (c # r) then Some (digits_value (c # r)) else None))"

section \<open>The instruction grammar\<close>

text \<open>
  The ten patterns of \<open>COMPACT_IR_PATTERNS\<close> use a small fragment of regular
  expressions: a sequence of character classes, each taken once, one or more times
  (\<open>+\<close>) or at most once (\<open>?\<close>), between \<open>^\<close> and \<open>$\<close>.
\<close>

datatype cclass = Lit char | Space | Digit | DigitDot

fun cmatch :: "cclass \<Rightarrow> char \<Rightarrow> bool" where
  "cmatch (Lit a) c = (c = a)"
| "cmatch Space c = isspace c"
| "cmatch Digit c = isdecimal c"
| "cmatch DigitDot c = (isdecimal c \<or> c = CHR ''.'')"

datatype quant = One | Plus | Opt

type_synonym pattern = "(cclass \<times> quant) list"

text \<open>
  \<open>pattern.match(line)\<close> for an anchored pattern: is there a way to consume the
  whole line? The final \<open>$\<close> also matches just before a last newline.
\<close>

fun re_match :: "pattern \<Rightarrow> string \<Rightarrow> bool" where
  "re_match [] s = (s = [] \<or> s = [CHR 0x0A])"
| "re_match ((a, One) # p) [] = False"
| "re_match ((a, One) # p) (c # cs) = (if cmatch a c then re_match p cs else False)"
| "re_match ((a, Plus) # p) [] = False"
| "re_match ((a, Plus) # p) (c # cs) =
     (if cmatch a c then (if re_match ((a, Plus) # p) cs then True else re_match p cs)
      else False)"
| "re_match ((a, Opt) # p) [] = re_match p []"
| "re_match ((a, Opt) # p) (c # cs) =
     (if cmatch a c then (if re_match p cs then True else re_match p (c # cs))
      else re_match p (c # cs))"

abbreviation ws :: "cclass \<times> quant" where "ws \<equiv> (Space, Plus)"
abbreviation num :: "cclass \<times> quant" where "num \<equiv> (DigitDot, Plus)"
abbreviation ref :: "cclass \<times> quant" where "ref \<equiv> (Digit, Plus)"
abbreviation neg :: "cclass \<times> quant" where "neg \<equiv> (Lit CHR ''-'', Opt)"
abbreviation lit :: "char \<Rightarrow> cclass \<times> quant" where "lit c \<equiv> (Lit c, One)"

definition COMPACT_IR_PATTERNS :: "(string \<times> pattern) list" where
  "COMPACT_IR_PATTERNS =
     [(''cube'', [lit CHR ''C'', ws, num, ws, num, ws, num]),
      (''cylinder'', [lit CHR ''Y'', ws, num, ws, num]),
      (''sphere'', [lit CHR ''S'', ws, num]),
      (''cone'', [lit CHR ''K'', ws, num, ws, num, ws, num]),
      (''translate'', [lit CHR ''T'', ws, ref, ws, neg, num, ws, neg, num, ws, neg, num]),
      (''rotate'', [lit CHR ''R'', ws, ref, ws, neg, num, ws, neg, num, ws, neg, num]),
      (''scale'', [lit CHR ''S'', lit CHR ''C'', ws, ref, ws, num, ws, num, ws, num]),
      (''union'', [lit CHR ''U'', ws, ref, ws, ref]),
      (''difference'', [lit CHR ''D'', ws, ref, ws, ref]),
      (''intersection'', [lit CHR ''I'', ws, ref, ws, ref])]"

section \<open>Syntax validation\<close>

type_synonym verdict = "bool \<times> string option"

text \<open>
  The inner loop of \<open>validate_syntax\<close>: try the table's patterns in order; the first
  one that matches sets \<open>matched\<close>, adds one to the node count and leaves the loop.
\<close>

fun match_loop :: "(string \<times> pattern) list \<Rightarrow> string \<Rightarrow> int \<Rightarrow> bool \<times> int" where
  "match_loop [] line node_count = (False, node_count)"
| "match_loop ((op_type, pat) # pats) line node_count =
     (if re_match pat line then (True, node_count + 1)
      else match_loop pats line node_count)"

text \<open>
  The outer loop over \<open>enumerate(lines)\<close>, from index \<open>i\<close>: \<open>Inl\<close> is the message
  of the early return, \<open>Inr\<close> the node count when the loop runs to its end.
\<close>

fun syntax_loop ::
  "(string \<times> pattern) list \<Rightarrow> int \<Rightarrow> string list \<Rightarrow> int \<Rightarrow> string + int" where
  "syntax_loop pats i [] node_count = Inr node_count"
| "syntax_loop pats i (raw # lines) node_count =
     (let line = py_strip raw in
      if line = [] then syntax_loop pats (i + 1) lines node_count
      else
        (case match_loop pats line node_count of
           (True, node_count') \<Rightarrow> syntax_loop pats (i + 1) lines node_count'
         | (False, _) \<Rightarrow>
             Inl (''Invalid syntax at line '' @ str_int (i + 1) @ '': '' @ take 50 line)))"

definition validate_syntax_with :: "(string \<times> pattern) list \<Rightarrow> string \<Rightarrow> verdict" where
  "validate_syntax_with pats ir =
     (if ir = [] \<or> py_strip ir = [] then (False, Some ''Empty IR'')
      else
        (case syntax_loop pats 0 (split_on (CHR 0x0A) (py_strip ir)) 0 of
           Inl msg \<Rightarrow> (False, Some msg)
         | Inr node_count \<Rightarrow>
             if node_count = 0 then (False, Some ''No valid operations found'')
             else (True, None)))"

definition validate_syntax :: "string \<Rightarrow> verdict" where
  "validate_syntax ir = validate_syntax_with COMPACT_IR_PATTERNS ir"

section \<open>Reference validation\<close>

datatype py_error = ValueError | IndexError

text \<open>
  One iteration of the loop of \<open>validate_references\<close> on a trimmed, non-empty line:
  an exception, the message of an early return (\<open>Some\<close>), or falling through to
  \<open>node_index += 1\<close> (\<open>None\<close>).
\<close>

definition check_line :: "string \<Rightarrow> int \<Rightarrow> py_error + string option" where
  "check_line line node_index =
     (let parts = split_ws line in
      case parts of
        [] \<Rightarrow> Inl IndexError
      | op # _ \<Rightarrow>
          if op \<in> {''T'', ''R'', ''SC''} then
            (if length parts \<ge> 2 then
               (case py_int (parts ! 1) of
                  None \<Rightarrow> Inl ValueError
                | Some r \<Rightarrow>
                    if r \<ge> node_index then
                      Inr (Some (''Invalid reference '' @ str_int r @ '' at node ''
                                 @ str_int node_index))
                    else Inr None)
             else Inr None)
          else if op \<in> {''U'', ''D'', ''I''} then
            (if length parts \<ge> 3 then
               (case py_int (parts ! 1) of
                  None \<Rightarrow> Inl ValueError
                | Some ref1 \<Rightarrow>
                    (case py_int (parts ! 2) of
                       None \<Rightarrow> Inl ValueError
                     | Some ref2 \<Rightarrow>
                         if ref1 \<ge> node_index \<or> ref2 \<ge> node_index then
                           Inr (Some (''Invalid references '' @ str_int ref1 @ '', ''
                                      @ str_int ref2 @ '' at node '' @ str_int node_index))
                         else Inr None))
             else Inr None)
          else Inr None)"

fun reference_loop :: "string list \<Rightarrow> int \<Rightarrow> py_error + verdict" where
  "reference_loop [] node_index = Inr (True, None)"
| "reference_loop (raw # lines) node_index =
     (let line = py_strip raw in
      if line = [] then reference_loop lines node_index
      else
        (case check_line line node_index of
           Inl e \<Rightarrow> Inl e
         | Inr (Some msg) \<Rightarrow> Inr (False, Some msg)
         | Inr None \<Rightarrow> reference_loop lines (node_index + 1)))"

definition validate_references :: "string \<Rightarrow> py_error + verdict" where
  "validate_references ir = reference_loop (split_on (CHR 0x0A) (py_strip ir)) 0"

section \<open>Evaluating one example\<close>

record EvalMetrics =
  syntax_valid :: bool
  geometry_valid :: "bool option"
  exact_match :: bool
  generated_ir :: string
  error_message :: "string option"

text \<open>
  The combined validity check, lines 200 to 205 of \<open>evaluate_single\<close>: the syntax
  verdict, replaced by the reference verdict when the syntax check passed and the
  reference check did not.
\<close>

definition is_ir_valid :: "string \<Rightarrow> py_error + verdict" where
  "is_ir_valid ir =
     (case validate_syntax ir of
        (syn_valid, syn_error) \<Rightarrow>
          if syn_valid then
            (case validate_references ir of
               Inl e \<Rightarrow> Inl e
             | Inr (ref_valid, ref_error) \<Rightarrow>
                 if \<not> ref_valid then Inr (False, ref_error)
                 else Inr (syn_valid, syn_error))
          else Inr (syn_valid, syn_error))"

text \<open>
  \<open>evaluate_single\<close> after text generation: \<open>gen\<close> is what \<open>generate_completion\<close>
  returned, \<open>target\<close> the example's \<open>ir\<close> field, \<open>has_engine\<close> says that
  \<open>engine\<close> is not \<open>None\<close>. The body of the \<open>try\<close> only assigns \<open>True\<close>.
\<close>

definition evaluate_single :: "string \<Rightarrow> string \<Rightarrow> bool \<Rightarrow> bool \<Rightarrow> py_error + EvalMetrics" where
  "evaluate_single gen target validate_geometry has_engine =
     (case is_ir_valid gen of
        Inl e \<Rightarrow> Inl e
      | Inr (valid, err) \<Rightarrow>
          Inr \<lparr> syntax_valid = valid,
                geometry_valid =
                  (if validate_geometry \<and> valid \<and> has_engine then Some True else None),
                exact_match = (py_strip target = py_strip gen),
                generated_ir = gen,
                error_message = err \<rparr>)"

text \<open>The histogram key of a message: \<open>error_message.split(":")[0]\<close>.\<close>

definition error_type :: "string \<Rightarrow> string" where
  "error_type msg = hd (split_on (CHR '':'') msg)"

text \<open>
  Modelled from the spec: the source has messages only; the error taxonomy of the
  specification names four kinds, told apart by how the message starts.
\<close>

datatype error_kind = EmptyInput | SyntaxError | NoValidOperations | DanglingReference

definition starts_with :: "string \<Rightarrow> string \<Rightarrow> bool" where
  "starts_with p s = (take (length p) s = p)"

definition error_kind_of :: "string \<Rightarrow> error_kind option" where
  "error_kind_of msg =
     (if msg = ''Empty IR'' then Some EmptyInput
      else if starts_with ''Invalid syntax at line '' msg then Some SyntaxError
      else if msg = ''No valid operations found'' then Some NoValidOperations
      else if starts_with ''Invalid reference '' msg \<or> starts_with ''Invalid references '' msg
        then Some DanglingReference
      else None)"

section \<open>Aggregation\<close>

record 'f AggregateMetrics =
  total :: int
  n_syntax_valid :: int
  n_geometry_valid :: int
  n_exact_match :: int
  syntax_accuracy :: 'f
  geometry_accuracy :: 'f
  exact_match_accuracy :: 'f
  errors :: "string \<rightharpoonup> int"

text \<open>
  \<open>sum(1 for r in results if c(r))\<close>. The quotient \<open>a / b\<close> of two Python ints is a
  float computed by the interpreter; the model takes that division as the parameter
  \<open>truediv\<close> and the number \<open>0\<close> of the empty case as \<open>zero\<close>.
\<close>

definition count_if :: "('a \<Rightarrow> bool) \<Rightarrow> 'a list \<Rightarrow> int" where
  "count_if c rs = sum_list (map (\<lambda>r. 1) (filter c rs))"

text \<open>The bookkeeping of the evaluation loop for one result: lines 269 to 271.\<close>

definition record_error :: "(string \<rightharpoonup> int) \<Rightarrow> EvalMetrics \<Rightarrow> (string \<rightharpoonup> int)" where
  "record_error errs metrics =
     (case error_message metrics of
        None \<Rightarrow> errs
      | Some msg \<Rightarrow>
          if msg = [] then errs
          else errs (error_type msg \<mapsto>
                 (case errs (error_type msg) of None \<Rightarrow> 0 | Some n \<Rightarrow> n) + 1))"

text \<open>The aggregation at the end of \<open>evaluate_model\<close>: lines 274 to 290.\<close>

definition aggregate ::
  "(int \<Rightarrow> int \<Rightarrow> 'f) \<Rightarrow> 'f \<Rightarrow> EvalMetrics list \<Rightarrow> (string \<rightharpoonup> int) \<Rightarrow> 'f AggregateMetrics" where
  "aggregate truediv zero results errs =
     (let n = int (length results);
          n_syn = count_if syntax_valid results;
          n_geo = count_if (\<lambda>r. geometry_valid r = Some True) results;
          n_exact = count_if exact_match results
      in \<lparr> total = n,
           n_syntax_valid = n_syn,
           n_geometry_valid = n_geo,
           n_exact_match = n_exact,
           syntax_accuracy = (if n > 0 then truediv n_syn n else zero),
           geometry_accuracy = (if n > 0 then truediv n_geo n else zero),
           exact_match_accuracy = (if n > 0 then truediv n_exact n else zero),
           errors = errs \<rparr>)"

text \<open>
  The loop of \<open>evaluate_model\<close> over the samples, each given as the generated text
  and the target text, threading \<open>results\<close> and \<open>errors\<close>.
\<close>

fun evaluate_loop ::
  "(string \<times> string) list \<Rightarrow> bool \<Rightarrow> bool \<Rightarrow> EvalMetrics list \<Rightarrow> (string \<rightharpoonup> int)
     \<Rightarrow> py_error + EvalMetrics list \<times> (string \<rightharpoonup> int)" where
  "evaluate_loop [] validate_geometry has_engine results errs = Inr (results, errs)"
| "evaluate_loop ((gen, target) # samples) validate_geometry has_engine results errs =
     (case evaluate_single gen target validate_geometry has_engine of
        Inl e \<Rightarrow> Inl e
      | Inr metrics \<Rightarrow>
          evaluate_loop samples validate_geometry has_engine
            (results @ [metrics]) (record_error errs metrics))"

definition evaluate_model ::
  "(int \<Rightarrow> int \<Rightarrow> 'f) \<Rightarrow> 'f \<Rightarrow> (string \<times> string) list \<Rightarrow> bool \<Rightarrow> bool \<Rightarrow> int option
     \<Rightarrow> py_error + 'f AggregateMetrics" where
  "evaluate_model truediv zero dataset validate_geometry has_engine max_samples =
     (let samples =
            (case max_samples of
               None \<Rightarrow> dataset
             | Some m \<Rightarrow> take (nat (min m (int (length dataset)))) dataset)
      in case evaluate_loop samples validate_geometry has_engine [] Map.empty of
           Inl e \<Rightarrow> Inl e
         | Inr (results, errs) \<Rightarrow> Inr (aggregate truediv zero results errs))"

text \<open>\<open>compute_metrics\<close>: a dict with three keys, here an association list.\<close>

definition compute_metrics ::
  "(int \<Rightarrow> int \<Rightarrow> 'f) \<Rightarrow> 'f \<Rightarrow> EvalMetrics list \<Rightarrow> (string \<times> 'f) list" where
  "compute_metrics truediv zero eval_results =
     (let n = int (length eval_results) in
      if n = 0 then
        [(''syntax_accuracy'', zero), (''geometry_accuracy'', zero),
         (''exact_match_accuracy'', zero)]
      else
        (let n_syn = count_if syntax_valid eval_results;
             n_geo = count_if (\<lambda>r. geometry_valid r = Some True) eval_results;
             n_exact = count_if exact_match eval_results
         in [(''syntax_accuracy'', truediv n_syn n),
             (''geometry_accuracy'', truediv n_geo n),
             (''exact_match_accuracy'', truediv n_exact n)]))"

section \<open>Notions of the specification\<close>

text \<open>
  The specification's trimming, stated without the code's steps: \<open>core\<close> is \<open>s\<close>
  without a whitespace prefix and a whitespace suffix, and \<open>core\<close> itself neither
  starts nor ends with whitespace.
\<close>

definition trims_to :: "string \<Rightarrow> string \<Rightarrow> bool" where
  "trims_to s core \<longleftrightarrow>
     (\<exists>l r. s = l @ core @ r \<and> (\<forall>c\<in>set l. isspace c) \<and> (\<forall>c\<in>set r. isspace c)
        \<and> (core = [] \<or> (\<not> isspace (hd core) \<and> \<not> isspace (last core))))"

text \<open>
  The operand shapes of the instruction grammar, read off the ten patterns: a node
  reference is a non-empty string of digits, a decimal a non-empty string of digits
  and dots, a signed decimal a decimal with at most one leading minus sign.
\<close>

datatype operand = NodeRef | Decimal | SignedDecimal

definition decimal_chars :: "string \<Rightarrow> bool" where
  "decimal_chars t = (t \<noteq> [] \<and> list_all (\<lambda>c. isdecimal c \<or> c = CHR ''.'') t)"

fun operand_ok :: "operand \<Rightarrow> string \<Rightarrow> bool" where
  "operand_ok NodeRef t = (t \<noteq> [] \<and> list_all isdecimal t)"
| "operand_ok Decimal t = decimal_chars t"
| "operand_ok SignedDecimal t =
     (case t of [] \<Rightarrow> False
      | c # r \<Rightarrow> if c = CHR ''-'' then decimal_chars r else decimal_chars (c # r))"

definition operands_of :: "string \<Rightarrow> operand list option" where
  "operands_of op =
     (if op = ''C'' \<or> op = ''K'' then Some [Decimal, Decimal, Decimal]
      else if op = ''Y'' then Some [Decimal, Decimal]
      else if op = ''S'' then Some [Decimal]
      else if op = ''T'' \<or> op = ''R'' then Some [NodeRef, SignedDecimal, SignedDecimal, SignedDecimal]
      else if op = ''SC'' then Some [NodeRef, Decimal, Decimal, Decimal]
      else if op = ''U'' \<or> op = ''D'' \<or> op = ''I'' then Some [NodeRef, NodeRef]
      else None)"

definition well_formed :: "string list \<Rightarrow> bool" where
  "well_formed parts =
     (case parts of
        [] \<Rightarrow> False
      | op # args \<Rightarrow>
          (case operands_of op of
             None \<Rightarrow> False
           | Some kinds \<Rightarrow> list_all2 operand_ok kinds args))"

definition line_matches :: "string \<Rightarrow> bool" where
  "line_matches line = list_ex (\<lambda>(op_type, pat). re_match pat line) COMPACT_IR_PATTERNS"

text \<open>The opcode of a pattern: its literal characters before the first whitespace item.\<close>

definition opcode_of :: "pattern \<Rightarrow> string" where
  "opcode_of p =
     map (\<lambda>(a, q). case a of Lit c \<Rightarrow> c | _ \<Rightarrow> CHR ''?'')
       (takeWhile (\<lambda>item. item \<noteq> ws) p)"

text \<open>
  A line of the trimmed text is bad for a pattern table when it is not blank and no
  pattern of the table matches it after trimming; \<open>line_matches\<close> is the match
  against the table of the source.
\<close>

definition bad_line :: "(string \<times> pattern) list \<Rightarrow> string \<Rightarrow> bool" where
  "bad_line pats raw =
     (py_strip raw \<noteq> [] \<and> \<not> list_ex (\<lambda>(op_type, pat). re_match pat (py_strip raw)) pats)"


definition leading_blank_lines :: "string \<Rightarrow> nat" where
  "leading_blank_lines ir =
     length (takeWhile (\<lambda>raw. py_strip raw = []) (split_on (CHR 0x0A) ir))"

definition ref_operands :: "string list \<Rightarrow> string list" where
  "ref_operands parts =
     (case parts of
        [] \<Rightarrow> []
      | op # args \<Rightarrow>
          if op = ''T'' \<or> op = ''R'' \<or> op = ''SC'' then take 1 args
          else if op = ''U'' \<or> op = ''D'' \<or> op = ''I'' then take 2 args
          else [])"

definition dangling :: "string \<Rightarrow> int \<Rightarrow> bool" where
  "dangling line node_index =
     list_ex (\<lambda>t. case py_int t of None \<Rightarrow> False | Some r \<Rightarrow> r \<ge> node_index)
       (ref_operands (split_ws line))"

section \<open>Patterns as whitespace-separated fields\<close>

text \<open>
  Each pattern is a sequence of fields separated by \<open>\s+\<close>; no field can match a
  whitespace character or the empty string. These notions serve the proofs only.
\<close>

fun nonspace_class :: "cclass \<Rightarrow> bool" where
  "nonspace_class (Lit c) = (\<not> isspace c)"
| "nonspace_class Space = False"
| "nonspace_class Digit = True"
| "nonspace_class DigitDot = True"

definition field_ok :: "pattern \<Rightarrow> bool" where
  "field_ok f = (list_all (\<lambda>(a, q). nonspace_class a) f \<and> list_ex (\<lambda>(a, q). q \<noteq> Opt) f)"

fun join_fields :: "pattern list \<Rightarrow> pattern" where
  "join_fields [] = []"
| "join_fields [f] = f"
| "join_fields (f # g # fs) = f @ ws # join_fields (g # fs)"

section \<open>Facts about the string primitives and the loops\<close>

lemma py_strip_Nil_iff: "py_strip s = [] \<longleftrightarrow> (\<forall>c\<in>set s. isspace c)"
proof -
  have "py_strip s = [] \<longleftrightarrow> (\<forall>c\<in>set (dropWhile isspace s). isspace c)"
    by (simp add: py_strip_def dropWhile_eq_Nil_conv)
  also have "\<dots> \<longleftrightarrow> dropWhile isspace s = []"
  proof
    assume a: "\<forall>c\<in>set (dropWhile isspace s). isspace c"
    show "dropWhile isspace s = []"
    proof (rule ccontr)
      assume n: "dropWhile isspace s \<noteq> []"
      then have "hd (dropWhile isspace s) \<in> set (dropWhile isspace s)" by simp
      with a hd_dropWhile [OF n] show False by blast
    qed
  next
    assume "dropWhile isspace s = []"
    then show "\<forall>c\<in>set (dropWhile isspace s). isspace c"
      by (simp only: list.set ball_empty)
  qed
  also have "\<dots> \<longleftrightarrow> (\<forall>c\<in>set s. isspace c)"
    by (simp add: dropWhile_eq_Nil_conv)
  finally show ?thesis .
qed

lemma last_dropWhile_keep: "dropWhile P xs \<noteq> [] \<Longrightarrow> last (dropWhile P xs) = last xs"
  by (induction xs) (auto split: if_splits)

lemma py_strip_hd: "py_strip s \<noteq> [] \<Longrightarrow> \<not> isspace (hd (py_strip s))"
proof -
  assume ne: "py_strip s \<noteq> []"
  let ?t = "dropWhile isspace s"
  let ?u = "dropWhile isspace (rev ?t)"
  have u: "?u \<noteq> []" using ne by (simp add: py_strip_def)
  have t: "?t \<noteq> []"
  proof
    assume "?t = []"
    then have "?u = []" by (simp only: rev.simps dropWhile.simps)
    with u show False by blast
  qed
  have "hd (py_strip s) = last ?u" using u by (simp add: py_strip_def hd_rev)
  also have "\<dots> = last (rev ?t)" using u by (rule last_dropWhile_keep)
  also have "\<dots> = hd ?t" using t by (simp add: last_rev)
  finally show ?thesis using hd_dropWhile [OF t] by simp
qed

lemma py_strip_last: "py_strip s \<noteq> [] \<Longrightarrow> \<not> isspace (last (py_strip s))"
proof -
  assume ne: "py_strip s \<noteq> []"
  let ?u = "dropWhile isspace (rev (dropWhile isspace s))"
  have u: "?u \<noteq> []" using ne by (simp add: py_strip_def)
  have "last (py_strip s) = hd ?u" using u by (simp add: py_strip_def last_rev)
  then show ?thesis using hd_dropWhile [OF u] by simp
qed

lemma split_on_not_Nil [simp]: "split_on sep s \<noteq> []"
  by (induction s) (auto split: list.splits)

lemma hd_split_on: "hd (split_on sep s) = takeWhile (\<lambda>c. c \<noteq> sep) s"
  by (induction s) (auto split: list.splits)

lemma isspace_newline [simp]: "isspace (CHR 0x0A)"
  by (simp add: isspace_def)

lemma match_loop_count:
  "match_loop pats line n = (True, n') \<Longrightarrow> n' = n + 1"
  by (induction pats) (auto split: if_splits)

lemma syntax_loop_mono:
  "syntax_loop pats i lines n = Inr n' \<Longrightarrow> n \<le> n'"
proof (induction lines arbitrary: i n)
  case Nil
  then show ?case by simp
next
  case (Cons raw lines)
  show ?case
  proof (cases "py_strip raw = []")
    case True
    then show ?thesis using Cons by simp
  next
    case False
    obtain b m where ml: "match_loop pats (py_strip raw) n = (b, m)" by force
    show ?thesis
    proof (cases b)
      case True
      with ml have "m = n + 1" by (simp add: match_loop_count)
      moreover have "syntax_loop pats (i + 1) lines m = Inr n'"
        using Cons.prems False ml True by (simp add: Let_def)
      ultimately show ?thesis using Cons.IH [of "i + 1" m] by simp
    next
      case F: False
      then show ?thesis using Cons.prems False ml by (simp add: Let_def)
    qed
  qed
qed

lemma first_line_not_blank:
  assumes "py_strip ir \<noteq> []"
  shows "py_strip (hd (split_on (CHR 0x0A) (py_strip ir))) \<noteq> []"
proof -
  obtain c r where cr: "py_strip ir = c # r" using assms by (cases "py_strip ir") auto
  have nsp: "\<not> isspace c" using py_strip_hd [OF assms] cr by simp
  then have "c \<noteq> CHR 0x0A" by auto
  moreover have "hd (split_on (CHR 0x0A) (py_strip ir)) = takeWhile (\<lambda>x. x \<noteq> CHR 0x0A) (c # r)"
    by (simp only: hd_split_on cr)
  ultimately have "c \<in> set (hd (split_on (CHR 0x0A) (py_strip ir)))"
    by simp
  then show ?thesis using nsp py_strip_Nil_iff by blast
qed

lemma syntax_loop_first:
  assumes "py_strip ir \<noteq> []"
    and "syntax_loop pats i (split_on (CHR 0x0A) (py_strip ir)) n = Inr n'"
  shows "n < n'"
proof -
  obtain l ls where sp: "split_on (CHR 0x0A) (py_strip ir) = l # ls"
    by (cases "split_on (CHR 0x0A) (py_strip ir)") auto
  have nb: "py_strip l \<noteq> []" using first_line_not_blank [OF assms(1)] sp by simp
  obtain b m where ml: "match_loop pats (py_strip l) n = (b, m)" by force
  show ?thesis
  proof (cases b)
    case True
    with ml have "m = n + 1" by (simp add: match_loop_count)
    moreover have "syntax_loop pats (i + 1) ls m = Inr n'"
      using assms(2) sp nb ml True by (simp add: Let_def)
    ultimately show ?thesis using syntax_loop_mono [of pats "i + 1" ls m n'] by simp
  next
    case False
    then show ?thesis using assms(2) sp nb ml by (simp add: Let_def)
  qed
qed

lemma syntax_loop_msg:
  "syntax_loop pats i lines n = Inl msg \<Longrightarrow> starts_with ''Invalid syntax at line '' msg"
proof (induction lines arbitrary: i n)
  case Nil
  then show ?case by simp
next
  case (Cons raw lines)
  obtain b m where ml: "match_loop pats (py_strip raw) n = (b, m)" by force
  show ?case
  proof (cases "py_strip raw = []")
    case True
    then show ?thesis using Cons by simp
  next
    case False
    show ?thesis
    proof (cases b)
      case True
      then show ?thesis using Cons False ml by (simp add: Let_def)
    next
      case F: False
      then have "msg = ''Invalid syntax at line '' @ str_int (i + 1) @ '': '' @ take 50 (py_strip raw)"
        using Cons.prems False ml by (simp add: Let_def)
      then show ?thesis by (simp add: starts_with_def)
    qed
  qed
qed

section \<open>Unfolding rules for evaluation\<close>

lemma split_ws_Nil: "split_ws [] = []"
  by (simp add: split_ws.simps)

lemma split_ws_space: "isspace c \<Longrightarrow> split_ws (c # s) = split_ws s"
  by (subst split_ws.simps, subst (2) split_ws.simps) simp

lemma split_ws_token:
  "\<not> isspace c \<Longrightarrow>
   split_ws (c # s) = (c # takeWhile (\<lambda>x. \<not> isspace x) s) # split_ws (dropWhile (\<lambda>x. \<not> isspace x) s)"
  by (subst split_ws.simps) simp

lemma str_nat_small: "n < 10 \<Longrightarrow> str_nat n = [digit_char n]"
  by (subst str_nat.simps) simp

lemma str_nat_large: "\<not> n < 10 \<Longrightarrow> str_nat n = str_nat (n div 10) @ [digit_char (n mod 10)]"
  by (subst str_nat.simps) simp

lemmas eval_simps =
  validate_syntax_def validate_syntax_with_def validate_references_def is_ir_valid_def
  COMPACT_IR_PATTERNS_def py_strip_def isspace_def isdecimal_def str_int_def
  str_nat_small str_nat_large split_ws_Nil split_ws_space split_ws_token
  check_line_def py_int_def digits_value_def digit_val_def error_type_def
  error_kind_of_def starts_with_def Let_def digit_char_def

section \<open>Trimming and counting\<close>

lemma py_strip_sandwich:
  assumes l: "\<forall>c\<in>set l. isspace c" and r: "\<forall>c\<in>set r. isspace c"
    and core: "core = [] \<or> (\<not> isspace (hd core) \<and> \<not> isspace (last core))"
  shows "py_strip (l @ core @ r) = core"
proof (cases "core = []")
  case True
  then show ?thesis using l r by (simp add: py_strip_Nil_iff ball_Un)
next
  case False
  then have h: "\<not> isspace (hd core)" and t: "\<not> isspace (last core)" using core by auto
  have 1: "dropWhile isspace (l @ core @ r) = core @ r"
    using l False h by (cases core) (simp_all add: dropWhile_append2)
  obtain x xs where xs: "rev core = x # xs" using False by (cases "rev core") auto
  have "hd (rev core) = last core" using False by (simp add: hd_rev)
  then have "\<not> isspace x" using t xs by simp
  then have 2: "dropWhile isspace (rev core) = rev core" by (simp add: xs)
  have "dropWhile isspace (rev r @ rev core) = dropWhile isspace (rev core)"
    by (rule dropWhile_append2) (use r in auto)
  then have "dropWhile isspace (rev (core @ r)) = rev core"
    using 2 by simp
  then show ?thesis using 1 by (simp add: py_strip_def)
qed

lemma py_strip_decompose:
  "\<exists>l r. s = l @ py_strip s @ r \<and> (\<forall>c\<in>set l. isspace c) \<and> (\<forall>c\<in>set r. isspace c)"
proof -
  let ?t = "dropWhile isspace s"
  let ?l = "takeWhile isspace s"
  let ?r = "rev (takeWhile isspace (rev ?t))"
  have "py_strip s @ ?r = rev (takeWhile isspace (rev ?t) @ dropWhile isspace (rev ?t))"
    by (simp only: py_strip_def rev_append)
  also have "\<dots> = rev (rev ?t)" by (simp only: takeWhile_dropWhile_id)
  finally have "?t = py_strip s @ ?r" by simp
  then have "s = ?l @ py_strip s @ ?r"
    using takeWhile_dropWhile_id [of isspace s] by simp
  moreover have "\<forall>c\<in>set ?l. isspace c" by (auto dest: set_takeWhileD)
  moreover have "\<forall>c\<in>set ?r. isspace c" by (auto dest: set_takeWhileD)
  ultimately show ?thesis by blast
qed

lemma trims_to_py_strip: "trims_to s core \<longleftrightarrow> core = py_strip s"
proof
  assume "trims_to s core"
  then obtain l r where s: "s = l @ core @ r"
    and l: "\<forall>c\<in>set l. isspace c" and r: "\<forall>c\<in>set r. isspace c"
    and c: "core = [] \<or> (\<not> isspace (hd core) \<and> \<not> isspace (last core))"
    unfolding trims_to_def by blast
  show "core = py_strip s"
    unfolding s by (rule py_strip_sandwich [OF l r c, symmetric])
next
  assume c: "core = py_strip s"
  obtain l r where s: "s = l @ py_strip s @ r"
    and l: "\<forall>c\<in>set l. isspace c" and r: "\<forall>c\<in>set r. isspace c"
    using py_strip_decompose [of s] by blast
  have e: "py_strip s = [] \<or> (\<not> isspace (hd (py_strip s)) \<and> \<not> isspace (last (py_strip s)))"
    using py_strip_hd [of s] py_strip_last [of s] by blast
  show "trims_to s core"
    unfolding trims_to_def c
    by (rule exI [of _ l], rule exI [of _ r]) (use s l r e in blast)
qed

lemma count_if_length: "count_if c rs = int (length (filter c rs))"
  by (induction rs) (simp_all add: count_if_def)

lemma count_if_append: "count_if c (xs @ ys) = count_if c xs + count_if c ys"
  by (simp add: count_if_length)

lemma count_if_Cons: "count_if c (x # xs) = (if c x then 1 else 0) + count_if c xs"
  by (simp add: count_if_length)

section \<open>Matching a pattern and splitting at whitespace\<close>

lemma nonspace_classD: "nonspace_class a \<Longrightarrow> cmatch a c \<Longrightarrow> \<not> isspace c"
  by (cases a) (auto simp: isspace_def isdecimal_def)

lemma re_match_Nil: "re_match [] s \<longleftrightarrow> s = [] \<or> s = [CHR 0x0A]"
  by simp

lemma re_match_One:
  "re_match ((a, One) # p) s \<longleftrightarrow> (\<exists>c v. s = c # v \<and> cmatch a c \<and> re_match p v)"
  by (cases s) auto

lemma re_match_Opt:
  "re_match ((a, Opt) # p) s \<longleftrightarrow>
     re_match p s \<or> (\<exists>c v. s = c # v \<and> cmatch a c \<and> re_match p v)"
  by (cases s) auto

lemma re_match_Plus:
  "re_match ((a, Plus) # p) s \<longleftrightarrow>
     (\<exists>t v. s = t @ v \<and> t \<noteq> [] \<and> (\<forall>c\<in>set t. cmatch a c) \<and> re_match p v)"
proof (induction s)
  case Nil
  then show ?case by simp
next
  case (Cons c cs)
  show ?case
  proof
    assume m: "re_match ((a, Plus) # p) (c # cs)"
    then have c: "cmatch a c" by (simp split: if_splits)
    show "\<exists>t v. c # cs = t @ v \<and> t \<noteq> [] \<and> (\<forall>c\<in>set t. cmatch a c) \<and> re_match p v"
    proof (cases "re_match ((a, Plus) # p) cs")
      case True
      then obtain t v where "cs = t @ v" "t \<noteq> []" "\<forall>c\<in>set t. cmatch a c" "re_match p v"
        using Cons.IH by blast
      then have "c # cs = (c # t) @ v \<and> c # t \<noteq> [] \<and> (\<forall>x\<in>set (c # t). cmatch a x) \<and> re_match p v"
        using c by simp
      then show ?thesis by blast
    next
      case False
      then have "re_match p cs" using m by (simp split: if_splits)
      then have "c # cs = [c] @ cs \<and> [c] \<noteq> [] \<and> (\<forall>x\<in>set [c]. cmatch a x) \<and> re_match p cs"
        using c by simp
      then show ?thesis by blast
    qed
  next
    assume "\<exists>t v. c # cs = t @ v \<and> t \<noteq> [] \<and> (\<forall>c\<in>set t. cmatch a c) \<and> re_match p v"
    then obtain t v where tv: "c # cs = t @ v" "t \<noteq> []" "\<forall>c\<in>set t. cmatch a c" "re_match p v"
      by blast
    then obtain t' where t': "t = c # t'" by (cases t) auto
    then have cs: "cs = t' @ v" and c: "cmatch a c" and all: "\<forall>c\<in>set t'. cmatch a c"
      using tv by auto
    show "re_match ((a, Plus) # p) (c # cs)"
    proof (cases "t' = []")
      case True
      then show ?thesis using cs c tv(4) by simp
    next
      case False
      then have "re_match ((a, Plus) # p) cs" using Cons.IH cs all tv(4) by blast
      then show ?thesis using c by simp
    qed
  qed
qed

lemma re_match_empty: "re_match f [] \<Longrightarrow> \<not> list_ex (\<lambda>(a, q). q \<noteq> Opt) f"
proof (induction f)
  case Nil
  then show ?case by simp
next
  case (Cons it f)
  obtain a q where it: "it = (a, q)" by (cases it)
  show ?case using Cons it by (cases q) auto
qed

lemma re_match_field:
  assumes "list_all (\<lambda>(a, q). nonspace_class a) f" and "re_match (f @ p) s"
  shows "\<exists>t v. s = t @ v \<and> (\<forall>c\<in>set t. \<not> isspace c) \<and> re_match f t \<and> re_match p v"
  using assms
proof (induction f arbitrary: s)
  case Nil
  then have "s = [] @ s \<and> (\<forall>c\<in>set []. \<not> isspace c) \<and> re_match [] [] \<and> re_match p s"
    by simp
  then show ?case by blast
next
  case (Cons it f)
  obtain a q where it: "it = (a, q)" by (cases it)
  have ns: "nonspace_class a" and rest: "list_all (\<lambda>(a, q). nonspace_class a) f"
    using Cons.prems(1) it by auto
  have m: "re_match ((a, q) # (f @ p)) s" using Cons.prems(2) it by simp
  show ?case
  proof (cases q)
    case One
    then obtain c v' where s: "s = c # v'" and c: "cmatch a c" and r: "re_match (f @ p) v'"
      using m re_match_One by blast
    obtain t v where tv: "v' = t @ v" "\<forall>c\<in>set t. \<not> isspace c" "re_match f t" "re_match p v"
      using Cons.IH [OF rest r] by blast
    have "s = (c # t) @ v" using s tv by simp
    moreover have "\<forall>x\<in>set (c # t). \<not> isspace x" using tv nonspace_classD [OF ns c] by simp
    moreover have "re_match (it # f) (c # t)" using it One c tv by simp
    ultimately show ?thesis using tv(4) by blast
  next
    case Plus
    then obtain t1 v1 where s: "s = t1 @ v1" and ne: "t1 \<noteq> []"
      and all: "\<forall>c\<in>set t1. cmatch a c" and r: "re_match (f @ p) v1"
      using m re_match_Plus [of a "f @ p" s] by blast
    obtain t v where tv: "v1 = t @ v" "\<forall>c\<in>set t. \<not> isspace c" "re_match f t" "re_match p v"
      using Cons.IH [OF rest r] by blast
    have "s = (t1 @ t) @ v" using s tv by simp
    moreover have "\<forall>x\<in>set (t1 @ t). \<not> isspace x"
      using tv all nonspace_classD [OF ns] by auto
    moreover have "re_match ((a, Plus) # f) (t1 @ t)"
      using re_match_Plus [of a f "t1 @ t"] ne all tv(3) by blast
    ultimately show ?thesis using tv(4) it Plus by blast
  next
    case Opt
    then consider "re_match (f @ p) s"
      | c v' where "s = c # v'" "cmatch a c" "re_match (f @ p) v'"
      using m re_match_Opt [of a "f @ p" s] by blast
    then show ?thesis
    proof cases
      case 1
      obtain t v where tv: "s = t @ v" "\<forall>c\<in>set t. \<not> isspace c" "re_match f t" "re_match p v"
        using Cons.IH [OF rest 1] by blast
      have "re_match ((a, Opt) # f) t" using re_match_Opt [of a f t] tv(3) by blast
      then show ?thesis using tv it Opt by blast
    next
      case 2
      obtain t v where tv: "v' = t @ v" "\<forall>c\<in>set t. \<not> isspace c" "re_match f t" "re_match p v"
        using Cons.IH [OF rest 2(3)] by blast
      have "s = (c # t) @ v" using 2 tv by simp
      moreover have "\<forall>x\<in>set (c # t). \<not> isspace x"
        using tv nonspace_classD [OF ns 2(2)] by simp
      moreover have "re_match ((a, Opt) # f) (c # t)"
        using re_match_Opt [of a f "c # t"] 2(2) tv(3) by blast
      ultimately show ?thesis using tv(4) it Opt by blast
    qed
  qed
qed

lemma split_ws_skip:
  assumes "\<forall>c\<in>set w. isspace c"
  shows "split_ws (w @ v) = split_ws v"
proof -
  have d: "dropWhile isspace (w @ v) = dropWhile isspace v"
    by (rule dropWhile_append2) (use assms in auto)
  have "split_ws (w @ v) =
     (case dropWhile isspace (w @ v) of
        [] \<Rightarrow> []
      | c # r \<Rightarrow> takeWhile (\<lambda>x. \<not> isspace x) (c # r)
                 # split_ws (dropWhile (\<lambda>x. \<not> isspace x) (c # r)))"
    by (rule split_ws.simps)
  also have "\<dots> = split_ws v"
    unfolding d by (rule split_ws.simps [symmetric])
  finally show ?thesis .
qed

lemma split_ws_all_space: "\<forall>c\<in>set w. isspace c \<Longrightarrow> split_ws w = []"
  using split_ws_skip [of w "[]"] by (simp add: split_ws_Nil)

lemma split_ws_first:
  assumes ne: "t \<noteq> []" and ns: "\<forall>c\<in>set t. \<not> isspace c"
    and v: "v = [] \<or> isspace (hd v)"
  shows "split_ws (t @ v) = t # split_ws v"
proof -
  obtain c t' where t: "t = c # t'" using ne by (cases t) auto
  have c: "\<not> isspace c" using ns t by simp
  have tw: "takeWhile (\<lambda>x. \<not> isspace x) (t' @ v) = t'"
  proof -
    have "takeWhile (\<lambda>x. \<not> isspace x) (t' @ v) = t' @ takeWhile (\<lambda>x. \<not> isspace x) v"
      by (rule takeWhile_append2) (use ns t in auto)
    moreover have "takeWhile (\<lambda>x. \<not> isspace x) v = []" using v by (cases v) auto
    ultimately show ?thesis by simp
  qed
  have dw: "dropWhile (\<lambda>x. \<not> isspace x) (t' @ v) = v"
  proof -
    have "dropWhile (\<lambda>x. \<not> isspace x) (t' @ v) = dropWhile (\<lambda>x. \<not> isspace x) v"
      by (rule dropWhile_append2) (use ns t in auto)
    moreover have "dropWhile (\<lambda>x. \<not> isspace x) v = v" using v by (cases v) auto
    ultimately show ?thesis by simp
  qed
  have "split_ws (c # (t' @ v)) =
      (c # takeWhile (\<lambda>x. \<not> isspace x) (t' @ v)) # split_ws (dropWhile (\<lambda>x. \<not> isspace x) (t' @ v))"
    by (rule split_ws_token [OF c])
  then show ?thesis unfolding tw dw t by simp
qed

lemma split_ws_tokens_nonspace: "\<forall>t\<in>set (split_ws s). t \<noteq> [] \<and> (\<forall>c\<in>set t. \<not> isspace c)"
proof (induction s rule: split_ws.induct)
  case (1 s)
  show ?case
  proof (cases "dropWhile isspace s")
    case Nil
    have "split_ws s = []" by (subst split_ws.simps) (simp only: Nil list.case)
    then show ?thesis by simp
  next
    case (Cons c r)
    define tok where "tok = takeWhile (\<lambda>x. \<not> isspace x) (c # r)"
    define rest where "rest = split_ws (dropWhile (\<lambda>x. \<not> isspace x) (c # r))"
    have c: "\<not> isspace c" using hd_dropWhile [of isspace s] Cons by auto
    have eq: "split_ws s = tok # rest"
      unfolding tok_def rest_def by (subst split_ws.simps) (simp only: Cons list.case)
    have tk: "\<forall>x\<in>set tok. \<not> isspace x"
      unfolding tok_def by (auto dest: set_takeWhileD)
    have ne: "tok \<noteq> []" unfolding tok_def using c by simp
    have ih: "\<forall>t\<in>set rest. t \<noteq> [] \<and> (\<forall>c\<in>set t. \<not> isspace c)"
      unfolding rest_def using 1 [OF Cons] .
    show ?thesis unfolding eq using tk ne ih by simp
  qed
qed

lemma re_match_tokens:
  assumes "fs \<noteq> []" and "list_all field_ok fs" and "re_match (join_fields fs) s"
  shows "list_all2 (\<lambda>f t. re_match f t \<and> (\<forall>c\<in>set t. \<not> isspace c)) fs (split_ws s)"
  using assms
proof (induction fs arbitrary: s rule: join_fields.induct)
  case 1
  then show ?case by simp
next
  case (2 f)
  have ok: "list_all (\<lambda>(a, q). nonspace_class a) f" and mand: "list_ex (\<lambda>(a, q). q \<noteq> Opt) f"
    using "2.prems"(2) by (simp_all add: field_ok_def)
  have "re_match (f @ []) s" using "2.prems"(3) by simp
  then obtain t v where tv: "s = t @ v" "\<forall>c\<in>set t. \<not> isspace c" "re_match f t" "re_match [] v"
    using re_match_field [OF ok] by blast
  have ne: "t \<noteq> []" using re_match_empty [of f] mand tv(3) by auto
  have v: "v = [] \<or> v = [CHR 0x0A]" using tv(4) by simp
  then have "split_ws v = []" using split_ws_all_space [of v] by auto
  moreover have "v = [] \<or> isspace (hd v)" using v by auto
  ultimately have "split_ws s = [t]" using split_ws_first [OF ne tv(2)] tv(1) by simp
  then show ?case using tv by simp
next
  case (3 f g fs)
  have ok: "list_all (\<lambda>(a, q). nonspace_class a) f" and mand: "list_ex (\<lambda>(a, q). q \<noteq> Opt) f"
    using "3.prems"(2) by (simp_all add: field_ok_def)
  have rest: "list_all field_ok (g # fs)"
    using "3.prems"(2) by simp
  have "re_match (f @ ws # join_fields (g # fs)) s" using "3.prems"(3) by simp
  then obtain t v where tv: "s = t @ v" "\<forall>c\<in>set t. \<not> isspace c" "re_match f t"
      "re_match (ws # join_fields (g # fs)) v"
    using re_match_field [OF ok] by blast
  obtain w v' where wv: "v = w @ v'" "w \<noteq> []" "\<forall>c\<in>set w. cmatch Space c"
      "re_match (join_fields (g # fs)) v'"
    using tv(4) re_match_Plus [of Space "join_fields (g # fs)" v] by blast
  have ne: "t \<noteq> []" using re_match_empty [of f] mand tv(3) by auto
  have sp: "\<forall>c\<in>set w. isspace c" using wv(3) by simp
  have "isspace (hd v)" using wv(1,2) sp by (cases w) auto
  then have "split_ws s = t # split_ws v" using split_ws_first [OF ne tv(2)] tv(1) by simp
  also have "split_ws v = split_ws v'" unfolding wv(1) by (rule split_ws_skip [OF sp])
  finally have eq: "split_ws s = t # split_ws v'" .
  have "list_all2 (\<lambda>f t. re_match f t \<and> (\<forall>c\<in>set t. \<not> isspace c)) (g # fs) (split_ws v')"
    using "3.IH" [OF _ rest wv(4)] by simp
  then show ?case using eq tv(2,3) by simp
qed

lemma not_space_newline: "\<forall>c\<in>set t. \<not> isspace c \<Longrightarrow> CHR 0x0A \<notin> set t"
  by auto

lemma plus_token:
  assumes "re_match [(a, Plus)] t" and "\<forall>c\<in>set t. \<not> isspace c"
  shows "t \<noteq> [] \<and> (\<forall>c\<in>set t. cmatch a c)"
proof -
  obtain t1 v where tv: "t = t1 @ v" "t1 \<noteq> []" "\<forall>c\<in>set t1. cmatch a c" "re_match [] v"
    using assms(1) re_match_Plus [of a "[]" t] by blast
  have "v = []"
  proof (rule ccontr)
    assume "v \<noteq> []"
    then have "v = [CHR 0x0A]" using tv(4) by simp
    then have "CHR 0x0A \<in> set t" using tv(1) by simp
    then show False using assms(2) isspace_newline by blast
  qed
  then show ?thesis using tv by simp
qed

lemma ref_token:
  "re_match [ref] t \<Longrightarrow> \<forall>c\<in>set t. \<not> isspace c \<Longrightarrow> operand_ok NodeRef t"
  using plus_token [of Digit t] by (simp add: list_all_iff)

lemma num_token:
  "re_match [num] t \<Longrightarrow> \<forall>c\<in>set t. \<not> isspace c \<Longrightarrow> operand_ok Decimal t"
  using plus_token [of DigitDot t] by (simp add: list_all_iff decimal_chars_def)

lemma signed_token:
  assumes "re_match [neg, num] t" and ns: "\<forall>c\<in>set t. \<not> isspace c"
  shows "operand_ok SignedDecimal t"
proof -
  consider "re_match [num] t" | c v where "t = c # v" "c = CHR ''-''" "re_match [num] v"
    using assms(1) re_match_Opt [of "Lit CHR ''-''" "[num]" t] by auto
  then show ?thesis
  proof cases
    case 1
    then have d: "decimal_chars t" using num_token [OF _ ns] by simp
    then obtain c r where t: "t = c # r" by (cases t) (auto simp: decimal_chars_def)
    have "c \<noteq> CHR ''-''" using d t by (auto simp: decimal_chars_def isdecimal_def)
    then show ?thesis using d t by simp
  next
    case 2
    have "\<forall>c\<in>set v. \<not> isspace c" using ns 2(1) by simp
    then have "decimal_chars v" using num_token [OF 2(3)] by simp
    then show ?thesis using 2 by simp
  qed
qed

lemma lit_token:
  assumes "re_match [lit x] t" and ns: "\<forall>c\<in>set t. \<not> isspace c"
  shows "t = [x]"
proof -
  obtain c v where cv: "t = c # v" "cmatch (Lit x) c" "re_match [] v"
    using assms(1) re_match_One [of "Lit x" "[]" t] by blast
  have "v \<noteq> [CHR 0x0A]" using ns cv(1) isspace_newline by auto
  then show ?thesis using cv by simp
qed

lemma lit2_token:
  assumes "re_match [lit x, lit y] t" and ns: "\<forall>c\<in>set t. \<not> isspace c"
  shows "t = [x, y]"
proof -
  obtain c v where cv: "t = c # v" "cmatch (Lit x) c" "re_match [lit y] v"
    using assms(1) re_match_One [of "Lit x" "[lit y]" t] by blast
  have "\<forall>c\<in>set v. \<not> isspace c" using ns cv(1) by simp
  then have "v = [y]" using lit_token [OF cv(3)] by simp
  then show ?thesis using cv by simp
qed

lemma not_space_minus [simp]: "\<not> isspace CHR ''-''"
  by (simp add: isspace_def)

lemma shape_d1:
  assumes ns: "\<not> isspace x"
    and m: "re_match [lit x, ws, num] s"
  shows "\<exists>t1. split_ws s = [[x], t1] \<and> operand_ok Decimal t1"
proof -
  have ok: "list_all field_ok [[lit x], [num]]"
    using ns by (simp add: field_ok_def)
  have "re_match (join_fields [[lit x], [num]]) s"
    using m by simp
  then have "list_all2 (\<lambda>f t. re_match f t \<and> (\<forall>c\<in>set t. \<not> isspace c))
               [[lit x], [num]] (split_ws s)"
    using ok by (intro re_match_tokens) simp_all
  then obtain t0 t1 where tk: "split_ws s = [t0, t1]"
      "re_match [lit x] t0" "\<forall>c\<in>set t0. \<not> isspace c" "re_match [num] t1" "\<forall>c\<in>set t1. \<not> isspace c"
    by (auto simp: list_all2_Cons1)
  have t0: "t0 = [x]" using lit_token tk(2,3) by blast
  have o1: "operand_ok Decimal t1" using num_token tk(4,5) by blast
  show ?thesis using tk(1) t0 o1 by simp
qed

lemma shape_d2:
  assumes ns: "\<not> isspace x"
    and m: "re_match [lit x, ws, num, ws, num] s"
  shows "\<exists>t1 t2. split_ws s = [[x], t1, t2] \<and> operand_ok Decimal t1 \<and> operand_ok Decimal t2"
proof -
  have ok: "list_all field_ok [[lit x], [num], [num]]"
    using ns by (simp add: field_ok_def)
  have "re_match (join_fields [[lit x], [num], [num]]) s"
    using m by simp
  then have "list_all2 (\<lambda>f t. re_match f t \<and> (\<forall>c\<in>set t. \<not> isspace c))
               [[lit x], [num], [num]] (split_ws s)"
    using ok by (intro re_match_tokens) simp_all
  then obtain t0 t1 t2 where tk: "split_ws s = [t0, t1, t2]"
      "re_match [lit x] t0" "\<forall>c\<in>set t0. \<not> isspace c" "re_match [num] t1" "\<forall>c\<in>set t1. \<not> isspace c" "re_match [num] t2" "\<forall>c\<in>set t2. \<not> isspace c"
    by (auto simp: list_all2_Cons1)
  have t0: "t0 = [x]" using lit_token tk(2,3) by blast
  have o1: "operand_ok Decimal t1" using num_token tk(4,5) by blast
  have o2: "operand_ok Decimal t2" using num_token tk(6,7) by blast
  show ?thesis using tk(1) t0 o1 o2 by simp
qed

lemma shape_d3:
  assumes ns: "\<not> isspace x"
    and m: "re_match [lit x, ws, num, ws, num, ws, num] s"
  shows "\<exists>t1 t2 t3. split_ws s = [[x], t1, t2, t3] \<and> operand_ok Decimal t1 \<and> operand_ok Decimal t2 \<and> operand_ok Decimal t3"
proof -
  have ok: "list_all field_ok [[lit x], [num], [num], [num]]"
    using ns by (simp add: field_ok_def)
  have "re_match (join_fields [[lit x], [num], [num], [num]]) s"
    using m by simp
  then have "list_all2 (\<lambda>f t. re_match f t \<and> (\<forall>c\<in>set t. \<not> isspace c))
               [[lit x], [num], [num], [num]] (split_ws s)"
    using ok by (intro re_match_tokens) simp_all
  then obtain t0 t1 t2 t3 where tk: "split_ws s = [t0, t1, t2, t3]"
      "re_match [lit x] t0" "\<forall>c\<in>set t0. \<not> isspace c" "re_match [num] t1" "\<forall>c\<in>set t1. \<not> isspace c" "re_match [num] t2" "\<forall>c\<in>set t2. \<not> isspace c" "re_match [num] t3" "\<forall>c\<in>set t3. \<not> isspace c"
    by (auto simp: list_all2_Cons1)
  have t0: "t0 = [x]" using lit_token tk(2,3) by blast
  have o1: "operand_ok Decimal t1" using num_token tk(4,5) by blast
  have o2: "operand_ok Decimal t2" using num_token tk(6,7) by blast
  have o3: "operand_ok Decimal t3" using num_token tk(8,9) by blast
  show ?thesis using tk(1) t0 o1 o2 o3 by simp
qed

lemma shape_r2:
  assumes ns: "\<not> isspace x"
    and m: "re_match [lit x, ws, ref, ws, ref] s"
  shows "\<exists>t1 t2. split_ws s = [[x], t1, t2] \<and> operand_ok NodeRef t1 \<and> operand_ok NodeRef t2"
proof -
  have ok: "list_all field_ok [[lit x], [ref], [ref]]"
    using ns by (simp add: field_ok_def)
  have "re_match (join_fields [[lit x], [ref], [ref]]) s"
    using m by simp
  then have "list_all2 (\<lambda>f t. re_match f t \<and> (\<forall>c\<in>set t. \<not> isspace c))
               [[lit x], [ref], [ref]] (split_ws s)"
    using ok by (intro re_match_tokens) simp_all
  then obtain t0 t1 t2 where tk: "split_ws s = [t0, t1, t2]"
      "re_match [lit x] t0" "\<forall>c\<in>set t0. \<not> isspace c" "re_match [ref] t1" "\<forall>c\<in>set t1. \<not> isspace c" "re_match [ref] t2" "\<forall>c\<in>set t2. \<not> isspace c"
    by (auto simp: list_all2_Cons1)
  have t0: "t0 = [x]" using lit_token tk(2,3) by blast
  have o1: "operand_ok NodeRef t1" using ref_token tk(4,5) by blast
  have o2: "operand_ok NodeRef t2" using ref_token tk(6,7) by blast
  show ?thesis using tk(1) t0 o1 o2 by simp
qed

lemma shape_rs3:
  assumes ns: "\<not> isspace x"
    and m: "re_match [lit x, ws, ref, ws, neg, num, ws, neg, num, ws, neg, num] s"
  shows "\<exists>t1 t2 t3 t4. split_ws s = [[x], t1, t2, t3, t4] \<and> operand_ok NodeRef t1 \<and> operand_ok SignedDecimal t2 \<and> operand_ok SignedDecimal t3 \<and> operand_ok SignedDecimal t4"
proof -
  have ok: "list_all field_ok [[lit x], [ref], [neg, num], [neg, num], [neg, num]]"
    using ns by (simp add: field_ok_def)
  have "re_match (join_fields [[lit x], [ref], [neg, num], [neg, num], [neg, num]]) s"
    using m by simp
  then have "list_all2 (\<lambda>f t. re_match f t \<and> (\<forall>c\<in>set t. \<not> isspace c))
               [[lit x], [ref], [neg, num], [neg, num], [neg, num]] (split_ws s)"
    using ok by (intro re_match_tokens) simp_all
  then obtain t0 t1 t2 t3 t4 where tk: "split_ws s = [t0, t1, t2, t3, t4]"
      "re_match [lit x] t0" "\<forall>c\<in>set t0. \<not> isspace c" "re_match [ref] t1" "\<forall>c\<in>set t1. \<not> isspace c" "re_match [neg, num] t2" "\<forall>c\<in>set t2. \<not> isspace c" "re_match [neg, num] t3" "\<forall>c\<in>set t3. \<not> isspace c" "re_match [neg, num] t4" "\<forall>c\<in>set t4. \<not> isspace c"
    by (auto simp: list_all2_Cons1)
  have t0: "t0 = [x]" using lit_token tk(2,3) by blast
  have o1: "operand_ok NodeRef t1" using ref_token tk(4,5) by blast
  have o2: "operand_ok SignedDecimal t2" using signed_token tk(6,7) by blast
  have o3: "operand_ok SignedDecimal t3" using signed_token tk(8,9) by blast
  have o4: "operand_ok SignedDecimal t4" using signed_token tk(10,11) by blast
  show ?thesis using tk(1) t0 o1 o2 o3 o4 by simp
qed

lemma shape_rd3:
  assumes ns: "\<not> isspace x \<and> \<not> isspace y"
    and m: "re_match [lit x, lit y, ws, ref, ws, num, ws, num, ws, num] s"
  shows "\<exists>t1 t2 t3 t4. split_ws s = [[x, y], t1, t2, t3, t4] \<and> operand_ok NodeRef t1 \<and> operand_ok Decimal t2 \<and> operand_ok Decimal t3 \<and> operand_ok Decimal t4"
proof -
  have ok: "list_all field_ok [[lit x, lit y], [ref], [num], [num], [num]]"
    using ns by (simp add: field_ok_def)
  have "re_match (join_fields [[lit x, lit y], [ref], [num], [num], [num]]) s"
    using m by simp
  then have "list_all2 (\<lambda>f t. re_match f t \<and> (\<forall>c\<in>set t. \<not> isspace c))
               [[lit x, lit y], [ref], [num], [num], [num]] (split_ws s)"
    using ok by (intro re_match_tokens) simp_all
  then obtain t0 t1 t2 t3 t4 where tk: "split_ws s = [t0, t1, t2, t3, t4]"
      "re_match [lit x, lit y] t0" "\<forall>c\<in>set t0. \<not> isspace c" "re_match [ref] t1" "\<forall>c\<in>set t1. \<not> isspace c" "re_match [num] t2" "\<forall>c\<in>set t2. \<not> isspace c" "re_match [num] t3" "\<forall>c\<in>set t3. \<not> isspace c" "re_match [num] t4" "\<forall>c\<in>set t4. \<not> isspace c"
    by (auto simp: list_all2_Cons1)
  have t0: "t0 = [x, y]" using lit2_token tk(2,3) by blast
  have o1: "operand_ok NodeRef t1" using ref_token tk(4,5) by blast
  have o2: "operand_ok Decimal t2" using num_token tk(6,7) by blast
  have o3: "operand_ok Decimal t3" using num_token tk(8,9) by blast
  have o4: "operand_ok Decimal t4" using num_token tk(10,11) by blast
  show ?thesis using tk(1) t0 o1 o2 o3 o4 by simp
qed

lemma match_loop_iff:
  "match_loop pats line n =
     (if list_ex (\<lambda>(op_type, pat). re_match pat line) pats then (True, n + 1) else (False, n))"
  by (induction pats) auto

lemma cube_tokens:
  "re_match [lit CHR ''C'', ws, num, ws, num, ws, num] s \<longrightarrow>
   well_formed (split_ws s) \<and> hd (split_ws s) = opcode_of [lit CHR ''C'', ws, num, ws, num, ws, num]"
proof
  assume m: "re_match [lit CHR ''C'', ws, num, ws, num, ws, num] s"
  have ns: "\<not> isspace CHR ''C''" by (simp add: isspace_def)
  obtain t1 t2 t3 where tk: "split_ws s = [''C'', t1, t2, t3]" "operand_ok Decimal t1" "operand_ok Decimal t2" "operand_ok Decimal t3"
    using shape_d3 [OF ns m] by blast
  have "well_formed (split_ws s)"
    unfolding tk(1) using tk(2-) by (simp add: well_formed_def operands_of_def)
  moreover have "hd (split_ws s) = opcode_of [lit CHR ''C'', ws, num, ws, num, ws, num]"
    unfolding tk(1) by (simp add: opcode_of_def)
  ultimately show "well_formed (split_ws s) \<and> hd (split_ws s) = opcode_of [lit CHR ''C'', ws, num, ws, num, ws, num]"
    by simp
qed

lemma cylinder_tokens:
  "re_match [lit CHR ''Y'', ws, num, ws, num] s \<longrightarrow>
   well_formed (split_ws s) \<and> hd (split_ws s) = opcode_of [lit CHR ''Y'', ws, num, ws, num]"
proof
  assume m: "re_match [lit CHR ''Y'', ws, num, ws, num] s"
  have ns: "\<not> isspace CHR ''Y''" by (simp add: isspace_def)
  obtain t1 t2 where tk: "split_ws s = [''Y'', t1, t2]" "operand_ok Decimal t1" "operand_ok Decimal t2"
    using shape_d2 [OF ns m] by blast
  have "well_formed (split_ws s)"
    unfolding tk(1) using tk(2-) by (simp add: well_formed_def operands_of_def)
  moreover have "hd (split_ws s) = opcode_of [lit CHR ''Y'', ws, num, ws, num]"
    unfolding tk(1) by (simp add: opcode_of_def)
  ultimately show "well_formed (split_ws s) \<and> hd (split_ws s) = opcode_of [lit CHR ''Y'', ws, num, ws, num]"
    by simp
qed

lemma sphere_tokens:
  "re_match [lit CHR ''S'', ws, num] s \<longrightarrow>
   well_formed (split_ws s) \<and> hd (split_ws s) = opcode_of [lit CHR ''S'', ws, num]"
proof
  assume m: "re_match [lit CHR ''S'', ws, num] s"
  have ns: "\<not> isspace CHR ''S''" by (simp add: isspace_def)
  obtain t1 where tk: "split_ws s = [''S'', t1]" "operand_ok Decimal t1"
    using shape_d1 [OF ns m] by blast
  have "well_formed (split_ws s)"
    unfolding tk(1) using tk(2-) by (simp add: well_formed_def operands_of_def)
  moreover have "hd (split_ws s) = opcode_of [lit CHR ''S'', ws, num]"
    unfolding tk(1) by (simp add: opcode_of_def)
  ultimately show "well_formed (split_ws s) \<and> hd (split_ws s) = opcode_of [lit CHR ''S'', ws, num]"
    by simp
qed

lemma cone_tokens:
  "re_match [lit CHR ''K'', ws, num, ws, num, ws, num] s \<longrightarrow>
   well_formed (split_ws s) \<and> hd (split_ws s) = opcode_of [lit CHR ''K'', ws, num, ws, num, ws, num]"
proof
  assume m: "re_match [lit CHR ''K'', ws, num, ws, num, ws, num] s"
  have ns: "\<not> isspace CHR ''K''" by (simp add: isspace_def)
  obtain t1 t2 t3 where tk: "split_ws s = [''K'', t1, t2, t3]" "operand_ok Decimal t1" "operand_ok Decimal t2" "operand_ok Decimal t3"
    using shape_d3 [OF ns m] by blast
  have "well_formed (split_ws s)"
    unfolding tk(1) using tk(2-) by (simp add: well_formed_def operands_of_def)
  moreover have "hd (split_ws s) = opcode_of [lit CHR ''K'', ws, num, ws, num, ws, num]"
    unfolding tk(1) by (simp add: opcode_of_def)
  ultimately show "well_formed (split_ws s) \<and> hd (split_ws s) = opcode_of [lit CHR ''K'', ws, num, ws, num, ws, num]"
    by simp
qed

lemma translate_tokens:
  "re_match [lit CHR ''T'', ws, ref, ws, neg, num, ws, neg, num, ws, neg, num] s \<longrightarrow>
   well_formed (split_ws s) \<and> hd (split_ws s) = opcode_of [lit CHR ''T'', ws, ref, ws, neg, num, ws, neg, num, ws, neg, num]"
proof
  assume m: "re_match [lit CHR ''T'', ws, ref, ws, neg, num, ws, neg, num, ws, neg, num] s"
  have ns: "\<not> isspace CHR ''T''" by (simp add: isspace_def)
  obtain t1 t2 t3 t4 where tk: "split_ws s = [''T'', t1, t2, t3, t4]" "operand_ok NodeRef t1" "operand_ok SignedDecimal t2" "operand_ok SignedDecimal t3" "operand_ok SignedDecimal t4"
    using shape_rs3 [OF ns m] by blast
  have "well_formed (split_ws s)"
    unfolding tk(1) using tk(2-) by (simp add: well_formed_def operands_of_def)
  moreover have "hd (split_ws s) = opcode_of [lit CHR ''T'', ws, ref, ws, neg, num, ws, neg, num, ws, neg, num]"
    unfolding tk(1) by (simp add: opcode_of_def)
  ultimately show "well_formed (split_ws s) \<and> hd (split_ws s) = opcode_of [lit CHR ''T'', ws, ref, ws, neg, num, ws, neg, num, ws, neg, num]"
    by simp
qed

lemma rotate_tokens:
  "re_match [lit CHR ''R'', ws, ref, ws, neg, num, ws, neg, num, ws, neg, num] s \<longrightarrow>
   well_formed (split_ws s) \<and> hd (split_ws s) = opcode_of [lit CHR ''R'', ws, ref, ws, neg, num, ws, neg, num, ws, neg, num]"
proof
  assume m: "re_match [lit CHR ''R'', ws, ref, ws, neg, num, ws, neg, num, ws, neg, num] s"
  have ns: "\<not> isspace CHR ''R''" by (simp add: isspace_def)
  obtain t1 t2 t3 t4 where tk: "split_ws s = [''R'', t1, t2, t3, t4]" "operand_ok NodeRef t1" "operand_ok SignedDecimal t2" "operand_ok SignedDecimal t3" "operand_ok SignedDecimal t4"
    using shape_rs3 [OF ns m] by blast
  have "well_formed (split_ws s)"
    unfolding tk(1) using tk(2-) by (simp add: well_formed_def operands_of_def)
  moreover have "hd (split_ws s) = opcode_of [lit CHR ''R'', ws, ref, ws, neg, num, ws, neg, num, ws, neg, num]"
    unfolding tk(1) by (simp add: opcode_of_def)
  ultimately show "well_formed (split_ws s) \<and> hd (split_ws s) = opcode_of [lit CHR ''R'', ws, ref, ws, neg, num, ws, neg, num, ws, neg, num]"
    by simp
qed

lemma scale_tokens:
  "re_match [lit CHR ''S'', lit CHR ''C'', ws, ref, ws, num, ws, num, ws, num] s \<longrightarrow>
   well_formed (split_ws s) \<and> hd (split_ws s) = opcode_of [lit CHR ''S'', lit CHR ''C'', ws, ref, ws, num, ws, num, ws, num]"
proof
  assume m: "re_match [lit CHR ''S'', lit CHR ''C'', ws, ref, ws, num, ws, num, ws, num] s"
  have ns: "\<not> isspace CHR ''S'' \<and> \<not> isspace CHR ''C''" by (simp add: isspace_def)
  obtain t1 t2 t3 t4 where tk: "split_ws s = [''SC'', t1, t2, t3, t4]" "operand_ok NodeRef t1" "operand_ok Decimal t2" "operand_ok Decimal t3" "operand_ok Decimal t4"
    using shape_rd3 [OF ns m] by blast
  have "well_formed (split_ws s)"
    unfolding tk(1) using tk(2-) by (simp add: well_formed_def operands_of_def)
  moreover have "hd (split_ws s) = opcode_of [lit CHR ''S'', lit CHR ''C'', ws, ref, ws, num, ws, num, ws, num]"
    unfolding tk(1) by (simp add: opcode_of_def)
  ultimately show "well_formed (split_ws s) \<and> hd (split_ws s) = opcode_of [lit CHR ''S'', lit CHR ''C'', ws, ref, ws, num, ws, num, ws, num]"
    by simp
qed

lemma union_tokens:
  "re_match [lit CHR ''U'', ws, ref, ws, ref] s \<longrightarrow>
   well_formed (split_ws s) \<and> hd (split_ws s) = opcode_of [lit CHR ''U'', ws, ref, ws, ref]"
proof
  assume m: "re_match [lit CHR ''U'', ws, ref, ws, ref] s"
  have ns: "\<not> isspace CHR ''U''" by (simp add: isspace_def)
  obtain t1 t2 where tk: "split_ws s = [''U'', t1, t2]" "operand_ok NodeRef t1" "operand_ok NodeRef t2"
    using shape_r2 [OF ns m] by blast
  have "well_formed (split_ws s)"
    unfolding tk(1) using tk(2-) by (simp add: well_formed_def operands_of_def)
  moreover have "hd (split_ws s) = opcode_of [lit CHR ''U'', ws, ref, ws, ref]"
    unfolding tk(1) by (simp add: opcode_of_def)
  ultimately show "well_formed (split_ws s) \<and> hd (split_ws s) = opcode_of [lit CHR ''U'', ws, ref, ws, ref]"
    by simp
qed

lemma difference_tokens:
  "re_match [lit CHR ''D'', ws, ref, ws, ref] s \<longrightarrow>
   well_formed (split_ws s) \<and> hd (split_ws s) = opcode_of [lit CHR ''D'', ws, ref, ws, ref]"
proof
  assume m: "re_match [lit CHR ''D'', ws, ref, ws, ref] s"
  have ns: "\<not> isspace CHR ''D''" by (simp add: isspace_def)
  obtain t1 t2 where tk: "split_ws s = [''D'', t1, t2]" "operand_ok NodeRef t1" "operand_ok NodeRef t2"
    using shape_r2 [OF ns m] by blast
  have "well_formed (split_ws s)"
    unfolding tk(1) using tk(2-) by (simp add: well_formed_def operands_of_def)
  moreover have "hd (split_ws s) = opcode_of [lit CHR ''D'', ws, ref, ws, ref]"
    unfolding tk(1) by (simp add: opcode_of_def)
  ultimately show "well_formed (split_ws s) \<and> hd (split_ws s) = opcode_of [lit CHR ''D'', ws, ref, ws, ref]"
    by simp
qed

lemma intersection_tokens:
  "re_match [lit CHR ''I'', ws, ref, ws, ref] s \<longrightarrow>
   well_formed (split_ws s) \<and> hd (split_ws s) = opcode_of [lit CHR ''I'', ws, ref, ws, ref]"
proof
  assume m: "re_match [lit CHR ''I'', ws, ref, ws, ref] s"
  have ns: "\<not> isspace CHR ''I''" by (simp add: isspace_def)
  obtain t1 t2 where tk: "split_ws s = [''I'', t1, t2]" "operand_ok NodeRef t1" "operand_ok NodeRef t2"
    using shape_r2 [OF ns m] by blast
  have "well_formed (split_ws s)"
    unfolding tk(1) using tk(2-) by (simp add: well_formed_def operands_of_def)
  moreover have "hd (split_ws s) = opcode_of [lit CHR ''I'', ws, ref, ws, ref]"
    unfolding tk(1) by (simp add: opcode_of_def)
  ultimately show "well_formed (split_ws s) \<and> hd (split_ws s) = opcode_of [lit CHR ''I'', ws, ref, ws, ref]"
    by simp
qed

lemma table_tokens:
  "list_all (\<lambda>(name, p). re_match p s \<longrightarrow>
      well_formed (split_ws s) \<and> hd (split_ws s) = opcode_of p) COMPACT_IR_PATTERNS"
  unfolding COMPACT_IR_PATTERNS_def list.pred_inject prod.case simp_thms
  by (intro conjI
        cube_tokens cylinder_tokens sphere_tokens cone_tokens translate_tokens rotate_tokens scale_tokens union_tokens difference_tokens intersection_tokens) simp

lemma pattern_tokens:
  assumes "(name, p) \<in> set COMPACT_IR_PATTERNS" and "re_match p s"
  shows "well_formed (split_ws s) \<and> hd (split_ws s) = opcode_of p"
  using table_tokens [of s] assms unfolding list_all_iff by blast

lemma line_matches_well_formed: "line_matches s \<Longrightarrow> well_formed (split_ws s)"
  unfolding line_matches_def list_ex_iff using pattern_tokens by blast

section \<open>The syntax loop and its first bad line\<close>

lemma syntax_loop_step_good:
  "\<not> bad_line pats raw \<Longrightarrow>
   syntax_loop pats i (raw # lines) n =
     syntax_loop pats (i + 1) lines (if py_strip raw = [] then n else n + 1)"
  by (auto simp add: bad_line_def match_loop_iff Let_def)

lemma syntax_loop_step_bad:
  "bad_line pats raw \<Longrightarrow>
   syntax_loop pats i (raw # lines) n =
     Inl (''Invalid syntax at line '' @ str_int (i + 1) @ '': '' @ take 50 (py_strip raw))"
  by (simp add: bad_line_def match_loop_iff Let_def)

lemma syntax_loop_first_bad:
  assumes "j < length lines" and "bad_line pats (lines ! j)"
    and "\<forall>k<j. \<not> bad_line pats (lines ! k)"
  shows "syntax_loop pats i lines n =
     Inl (''Invalid syntax at line '' @ str_int (i + int j + 1) @ '': ''
          @ take 50 (py_strip (lines ! j)))"
  using assms
proof (induction lines arbitrary: i j n)
  case Nil
  then show ?case by simp
next
  case (Cons raw lines)
  show ?case
  proof (cases j)
    case 0
    then show ?thesis using Cons.prems(2)
      by (simp add: syntax_loop_step_bad del: syntax_loop.simps)
  next
    case (Suc j')
    have good: "\<not> bad_line pats raw" using Cons.prems(3) Suc by auto
    have 1: "j' < length lines" using Cons.prems(1) Suc by simp
    have 2: "bad_line pats (lines ! j')" using Cons.prems(2) Suc by simp
    have 3: "\<forall>k<j'. \<not> bad_line pats (lines ! k)"
    proof (intro allI impI)
      fix k assume "k < j'"
      then have "Suc k < j" using Suc by simp
      then have "\<not> bad_line pats ((raw # lines) ! Suc k)" using Cons.prems(3) by blast
      then show "\<not> bad_line pats (lines ! k)" by simp
    qed
    have "syntax_loop pats (i + 1) lines (if py_strip raw = [] then n else n + 1) =
        Inl (''Invalid syntax at line '' @ str_int (i + 1 + int j' + 1) @ '': ''
             @ take 50 (py_strip (lines ! j')))"
      by (rule Cons.IH [OF 1 2 3])
    moreover have "i + 1 + int j' + 1 = i + int j + 1" using Suc by simp
    ultimately show ?thesis
      using Suc by (simp add: syntax_loop_step_good [OF good] del: syntax_loop.simps)
  qed
qed

lemma syntax_loop_no_bad:
  "\<forall>raw\<in>set lines. \<not> bad_line pats raw \<Longrightarrow>
   syntax_loop pats i lines n =
     Inr (n + int (length (filter (\<lambda>raw. py_strip raw \<noteq> []) lines)))"
proof (induction lines arbitrary: i n)
  case Nil
  then show ?case by simp
next
  case (Cons raw lines)
  have good: "\<not> bad_line pats raw" and rest: "\<forall>raw\<in>set lines. \<not> bad_line pats raw"
    using Cons.prems by simp_all
  show ?case
    using Cons.IH [OF rest]
    by (simp add: syntax_loop_step_good [OF good] del: syntax_loop.simps)
qed

lemma syntax_loop_Inr_no_bad:
  "syntax_loop pats i lines n = Inr n' \<Longrightarrow> \<forall>raw\<in>set lines. \<not> bad_line pats raw"
proof (induction lines arbitrary: i n)
  case Nil
  then show ?case by simp
next
  case (Cons raw lines)
  have good: "\<not> bad_line pats raw"
  proof
    assume "bad_line pats raw"
    then show False using Cons.prems
      by (simp add: syntax_loop_step_bad del: syntax_loop.simps)
  qed
  then have "syntax_loop pats (i + 1) lines (if py_strip raw = [] then n else n + 1) = Inr n'"
    using Cons.prems by (simp add: syntax_loop_step_good del: syntax_loop.simps)
  then have "\<forall>raw\<in>set lines. \<not> bad_line pats raw" by (rule Cons.IH)
  then show ?case using good by simp
qed

lemma first_bad_exists:
  assumes "\<exists>raw\<in>set lines. P raw"
  shows "\<exists>j<length lines. P (lines ! j) \<and> (\<forall>k<j. \<not> P (lines ! k))"
proof -
  obtain i where i: "i < length lines" "P (lines ! i)"
    using assms by (auto simp: in_set_conv_nth)
  define j where "j = (LEAST i. i < length lines \<and> P (lines ! i))"
  have j: "j < length lines \<and> P (lines ! j)"
    unfolding j_def by (rule LeastI [of "\<lambda>i. i < length lines \<and> P (lines ! i)" i]) (use i in simp)
  have "\<forall>k<j. \<not> P (lines ! k)"
  proof (intro allI impI notI)
    fix k assume k: "k < j" "P (lines ! k)"
    then have "k < length lines \<and> P (lines ! k)" using j by simp
    then have "j \<le> k" unfolding j_def by (rule Least_le)
    then show False using k by simp
  qed
  then show ?thesis using j by blast
qed

lemma validate_syntax_valid_iff:
  "validate_syntax_with pats ir = (True, None) \<longleftrightarrow>
     py_strip ir \<noteq> [] \<and> (\<forall>raw\<in>set (split_on (CHR 0x0A) (py_strip ir)). \<not> bad_line pats raw)"
proof (cases "py_strip ir = []")
  case True
  then show ?thesis by (simp add: validate_syntax_with_def)
next
  case ne: False
  then have ir: "ir \<noteq> []" by (auto simp: py_strip_def)
  show ?thesis
  proof (cases "\<forall>raw\<in>set (split_on (CHR 0x0A) (py_strip ir)). \<not> bad_line pats raw")
    case True
    obtain n' where n': "syntax_loop pats 0 (split_on (CHR 0x0A) (py_strip ir)) 0 = Inr n'"
      using syntax_loop_no_bad [OF True] by blast
    then have "0 < n'" using syntax_loop_first [OF ne] by blast
    then show ?thesis using True ne ir n' by (simp add: validate_syntax_with_def)
  next
    case False
    then obtain j where j: "j < length (split_on (CHR 0x0A) (py_strip ir))"
        "bad_line pats (split_on (CHR 0x0A) (py_strip ir) ! j)"
        "\<forall>k<j. \<not> bad_line pats (split_on (CHR 0x0A) (py_strip ir) ! k)"
      using first_bad_exists [of "split_on (CHR 0x0A) (py_strip ir)" "bad_line pats"] by blast
    show ?thesis
      using False ne ir syntax_loop_first_bad [OF j, of 0 0]
      by (simp add: validate_syntax_with_def)
  qed
qed

lemma syntax_error_kind:
  "starts_with ''Invalid syntax at line '' msg \<Longrightarrow> error_kind_of msg = Some SyntaxError"
  by (auto simp: error_kind_of_def starts_with_def)

lemma bad_line_table: "bad_line COMPACT_IR_PATTERNS raw \<longleftrightarrow> py_strip raw \<noteq> [] \<and> \<not> line_matches (py_strip raw)"
  by (simp add: bad_line_def line_matches_def)

lemma validate_syntax_bad:
  assumes "j < length (split_on (CHR 0x0A) (py_strip ir))"
    and "bad_line pats (split_on (CHR 0x0A) (py_strip ir) ! j)"
    and "\<forall>k<j. \<not> bad_line pats (split_on (CHR 0x0A) (py_strip ir) ! k)"
  shows "validate_syntax_with pats ir =
     (False, Some (''Invalid syntax at line '' @ str_int (int j + 1) @ '': ''
                   @ take 50 (py_strip (split_on (CHR 0x0A) (py_strip ir) ! j))))"
proof -
  have ne: "py_strip ir \<noteq> []"
  proof
    assume e: "py_strip ir = []"
    then have "j = 0" using assms(1) by simp
    then have l: "split_on (CHR 0x0A) (py_strip ir) ! j = []" using e by simp
    have "py_strip [] = []" by (simp add: py_strip_def)
    then show False using assms(2) unfolding l bad_line_def by simp
  qed
  then have "ir \<noteq> []" by (auto simp: py_strip_def)
  then show ?thesis
    using ne syntax_loop_first_bad [OF assms, of 0 0] by (simp add: validate_syntax_with_def)
qed

section \<open>The lines of a text and of its trimmed form\<close>

lemma split_on_append:
  "split_on c (a @ b) =
     butlast (split_on c a) @ (last (split_on c a) @ hd (split_on c b)) # tl (split_on c b)"
proof (induction a)
  case Nil
  have "split_on c b \<noteq> []" by simp
  then show ?case by (cases "split_on c b") (simp_all del: split_on_not_Nil)
next
  case (Cons x a)
  obtain l ls where A: "split_on c a = l # ls" by (cases "split_on c a") auto
  show ?case
  proof (cases "x = c")
    case True
    then show ?thesis using Cons A by simp
  next
    case False
    then show ?thesis using Cons A by (cases ls) (simp_all split: list.splits)
  qed
qed

lemma split_on_chars: "\<forall>piece\<in>set (split_on c s). set piece \<subseteq> set s"
proof (induction s)
  case Nil
  then show ?case by simp
next
  case (Cons x s)
  obtain l ls where A: "split_on c s = l # ls" by (cases "split_on c s") auto
  then show ?case using Cons by auto
qed

lemma py_strip_prefix:
  assumes "\<forall>c\<in>set w. isspace c"
  shows "py_strip (w @ s) = py_strip s"
proof -
  obtain l r where s: "s = l @ py_strip s @ r" and l: "\<forall>c\<in>set l. isspace c"
    and r: "\<forall>c\<in>set r. isspace c"
    using py_strip_decompose [of s] by blast
  have e: "py_strip s = [] \<or> (\<not> isspace (hd (py_strip s)) \<and> \<not> isspace (last (py_strip s)))"
    using py_strip_hd [of s] py_strip_last [of s] by blast
  have wl: "\<forall>c\<in>set (w @ l). isspace c" using assms l by auto
  have "py_strip ((w @ l) @ py_strip s @ r) = py_strip s"
    by (rule py_strip_sandwich [OF wl r e])
  moreover have "(w @ l) @ py_strip s @ r = w @ s" using s by simp
  ultimately show ?thesis by simp
qed

lemma py_strip_suffix:
  assumes "\<forall>c\<in>set w. isspace c"
  shows "py_strip (s @ w) = py_strip s"
proof -
  obtain l r where s: "s = l @ py_strip s @ r" and l: "\<forall>c\<in>set l. isspace c"
    and r: "\<forall>c\<in>set r. isspace c"
    using py_strip_decompose [of s] by blast
  have e: "py_strip s = [] \<or> (\<not> isspace (hd (py_strip s)) \<and> \<not> isspace (last (py_strip s)))"
    using py_strip_hd [of s] py_strip_last [of s] by blast
  have rw: "\<forall>c\<in>set (r @ w). isspace c" using assms r by auto
  have "py_strip (l @ py_strip s @ (r @ w)) = py_strip s"
    by (rule py_strip_sandwich [OF l rw e])
  moreover have "l @ py_strip s @ (r @ w) = s @ w" using s by simp
  ultimately show ?thesis by simp
qed

lemma blank_pieces:
  assumes "\<forall>c\<in>set w. isspace c"
  shows "map py_strip (split_on sep w) = replicate (length (split_on sep w)) []"
proof -
  have "\<forall>piece\<in>set (split_on sep w). py_strip piece = []"
    using split_on_chars [of sep w] assms by (auto simp: py_strip_Nil_iff)
  then show ?thesis by (simp add: map_replicate_const [symmetric] cong: map_cong)
qed

lemma lines_prefix:
  assumes w: "\<forall>c\<in>set w. isspace c"
  shows "map py_strip (split_on sep (w @ s)) =
     replicate (length (split_on sep w) - 1) [] @ map py_strip (split_on sep s)"
proof -
  let ?W = "split_on sep w" and ?S = "split_on sep s"
  have "last ?W \<in> set ?W" by simp
  then have "set (last ?W) \<subseteq> set w" using split_on_chars [of sep w] by blast
  then have lastW: "\<forall>c\<in>set (last ?W). isspace c" using w by blast
  have "map py_strip (butlast ?W) = butlast (map py_strip ?W)" by (simp add: map_butlast)
  also have "\<dots> = replicate (length ?W - 1) []"
    unfolding blank_pieces [OF w] by (simp add: butlast_conv_take)
  finally have b: "map py_strip (butlast ?W) = replicate (length ?W - 1) []" .
  have "map py_strip (split_on sep (w @ s)) =
      map py_strip (butlast ?W) @ py_strip (last ?W @ hd ?S) # map py_strip (tl ?S)"
    unfolding split_on_append by simp
  also have "py_strip (last ?W @ hd ?S) = py_strip (hd ?S)" by (rule py_strip_prefix [OF lastW])
  also have "py_strip (hd ?S) # map py_strip (tl ?S) = map py_strip ?S"
    by (cases ?S) simp_all
  finally show ?thesis unfolding b .
qed

lemma lines_suffix:
  assumes w: "\<forall>c\<in>set w. isspace c"
  shows "map py_strip (split_on sep (s @ w)) =
     map py_strip (split_on sep s) @ replicate (length (split_on sep w) - 1) []"
proof -
  let ?W = "split_on sep w" and ?S = "split_on sep s"
  have "hd ?W \<in> set ?W" by simp
  then have "set (hd ?W) \<subseteq> set w" using split_on_chars [of sep w] by blast
  then have hdW: "\<forall>c\<in>set (hd ?W). isspace c" using w by blast
  have "map py_strip (tl ?W) = tl (map py_strip ?W)" by (simp add: map_tl)
  also have "\<dots> = replicate (length ?W - 1) []"
    unfolding blank_pieces [OF w] by (cases "length ?W") simp_all
  finally have t: "map py_strip (tl ?W) = replicate (length ?W - 1) []" .
  have "map py_strip (split_on sep (s @ w)) =
      map py_strip (butlast ?S) @ py_strip (last ?S @ hd ?W) # map py_strip (tl ?W)"
    unfolding split_on_append by simp
  also have "py_strip (last ?S @ hd ?W) = py_strip (last ?S)" by (rule py_strip_suffix [OF hdW])
  finally have "map py_strip (split_on sep (s @ w)) =
      (map py_strip (butlast ?S) @ [py_strip (last ?S)]) @ map py_strip (tl ?W)"
    by simp
  moreover have "map py_strip (butlast ?S) @ [py_strip (last ?S)] = map py_strip ?S"
  proof -
    have "map py_strip (butlast ?S @ [last ?S]) =
        map py_strip (butlast ?S) @ [py_strip (last ?S)]"
      by (simp only: map_append list.map)
    then show ?thesis by simp
  qed
  ultimately show ?thesis unfolding t by simp
qed

lemma lines_of_trimmed:
  "\<exists>a b. map py_strip (split_on sep ir) =
     replicate a [] @ map py_strip (split_on sep (py_strip ir)) @ replicate b []"
proof -
  obtain l r where s: "ir = l @ py_strip ir @ r" and l: "\<forall>c\<in>set l. isspace c"
    and r: "\<forall>c\<in>set r. isspace c"
    using py_strip_decompose [of ir] by blast
  have "map py_strip (split_on sep (l @ (py_strip ir @ r))) =
      replicate (length (split_on sep l) - 1) [] @ map py_strip (split_on sep (py_strip ir @ r))"
    by (rule lines_prefix [OF l])
  also have "map py_strip (split_on sep (py_strip ir @ r)) =
      map py_strip (split_on sep (py_strip ir)) @ replicate (length (split_on sep r) - 1) []"
    by (rule lines_suffix [OF r])
  finally show ?thesis using s by metis
qed


lemma bad_line_strip: "py_strip raw = py_strip raw' \<Longrightarrow> bad_line pats raw = bad_line pats raw'"
  by (simp add: bad_line_def)

lemma takeWhile_take:
  assumes "j < length xs" and "\<not> P (xs ! j)"
  shows "takeWhile P (take (Suc j) xs) = takeWhile P xs"
proof -
  have "xs = take (Suc j) xs @ drop (Suc j) xs" by simp
  moreover have "xs ! j \<in> set (take (Suc j) xs)"
    using assms(1) by (auto simp: in_set_conv_nth intro!: exI [of _ j])
  ultimately show ?thesis
    using assms(2) takeWhile_append1 [of "xs ! j" "take (Suc j) xs" P "drop (Suc j) xs"] by simp
qed

lemma first_bad_in_input:
  assumes j: "j < length (split_on (CHR 0x0A) ir)"
    and bad: "bad_line pats (split_on (CHR 0x0A) ir ! j)"
    and first: "\<forall>k<j. \<not> bad_line pats (split_on (CHR 0x0A) ir ! k)"
  shows "leading_blank_lines ir \<le> j
       \<and> validate_syntax_with pats ir =
           (False, Some (''Invalid syntax at line ''
                         @ str_int (int (j - leading_blank_lines ir) + 1) @ '': ''
                         @ take 50 (py_strip (split_on (CHR 0x0A) ir ! j))))"
proof -
  let ?L = "split_on (CHR 0x0A) ir" and ?L' = "split_on (CHR 0x0A) (py_strip ir)"
  let ?M = "map py_strip ?L" and ?M' = "map py_strip ?L'"
  obtain a b where M: "?M = replicate a [] @ ?M' @ replicate b []"
    using lines_of_trimmed by blast
  have Mj: "?M ! j = py_strip (?L ! j)" using j by simp
  have nb: "py_strip (?L ! j) \<noteq> []" using bad by (simp add: bad_line_def)
  have ne: "py_strip ir \<noteq> []"
  proof -
    obtain c where c: "c \<in> set (?L ! j)" "\<not> isspace c"
      using nb py_strip_Nil_iff [of "?L ! j"] by blast
    have "?L ! j \<in> set ?L" using j by simp
    then have "c \<in> set ir" using c(1) split_on_chars [of "CHR 0x0A" ir] by blast
    then show ?thesis using c(2) py_strip_Nil_iff [of ir] by blast
  qed
  have hd': "?M' ! 0 \<noteq> []"
    using first_line_not_blank [OF ne] by (simp add: hd_conv_nth)
  have len': "0 < length ?M'" by simp
  have tw: "takeWhile (\<lambda>x. x = []) ?M = replicate a []"
  proof -
    have "\<exists>x\<in>set (?M' @ replicate b []). x \<noteq> []"
      using hd' len' by (metis UnI1 nth_mem set_append)
    then obtain x where x: "x \<in> set (?M' @ replicate b [])" "x \<noteq> []" by blast
    have hdne: "hd (?M' @ replicate b []) \<noteq> []"
      using hd' len' by (cases ?M') simp_all
    have "takeWhile (\<lambda>x. x = []) (replicate a [] @ (?M' @ replicate b [])) =
        replicate a [] @ takeWhile (\<lambda>x. x = []) (?M' @ replicate b [])"
      by (rule takeWhile_append2) simp
    moreover have "takeWhile (\<lambda>x. x = []) (?M' @ replicate b []) = []"
      using hdne len' by (cases "?M' @ replicate b []") simp_all
    ultimately show ?thesis unfolding M by simp
  qed
  have lb: "leading_blank_lines ir = a"
  proof -
    have "takeWhile (\<lambda>x. x = []) ?M = map py_strip (takeWhile (\<lambda>raw. py_strip raw = []) ?L)"
      by (simp add: takeWhile_map comp_def)
    then have "length (takeWhile (\<lambda>raw. py_strip raw = []) ?L) = length (replicate a ([]::string))"
      unfolding tw by (metis length_map)
    then show ?thesis by (simp add: leading_blank_lines_def)
  qed
  have ja: "a \<le> j"
  proof (rule ccontr)
    assume "\<not> a \<le> j"
    then have "?M ! j = []" unfolding M by (simp add: nth_append)
    then show False using Mj nb by simp
  qed
  have jb: "j - a < length ?M'"
  proof (rule ccontr)
    assume n: "\<not> j - a < length ?M'"
    have "j < length ?M" using j by simp
    then have "j < a + length ?M' + b" unfolding M by simp
    then have "?M ! j = []" unfolding M using ja n by (simp add: nth_append)
    then show False using Mj nb by simp
  qed
  have nth: "\<And>k. k < length ?M' \<Longrightarrow> py_strip (?L' ! k) = py_strip (?L ! (a + k))"
  proof -
    fix k assume k: "k < length ?M'"
    have "?M ! (a + k) = ?M' ! k" unfolding M using k by (simp add: nth_append)
    moreover have "a + k < length ?M" unfolding M using k by simp
    ultimately show "py_strip (?L' ! k) = py_strip (?L ! (a + k))" using k by simp
  qed
  have j': "j - a < length ?L'" using jb by simp
  have eqj: "py_strip (?L' ! (j - a)) = py_strip (?L ! j)" using nth [OF jb] ja by simp
  have b': "bad_line pats (?L' ! (j - a))" using bad bad_line_strip [OF eqj] by simp
  have f': "\<forall>k<j - a. \<not> bad_line pats (?L' ! k)"
  proof (intro allI impI)
    fix k assume k: "k < j - a"
    then have "k < length ?M'" using jb by simp
    then have "py_strip (?L' ! k) = py_strip (?L ! (a + k))" by (rule nth)
    moreover have "a + k < j" using k by simp
    ultimately show "\<not> bad_line pats (?L' ! k)"
      using first bad_line_strip [of "?L' ! k" "?L ! (a + k)" pats] by simp
  qed
  have "validate_syntax_with pats ir =
      (False, Some (''Invalid syntax at line '' @ str_int (int (j - a) + 1) @ '': ''
                    @ take 50 (py_strip (?L' ! (j - a)))))"
    by (rule validate_syntax_bad [OF j' b' f'])
  then show ?thesis unfolding lb eqj using ja by simp
qed

section \<open>The pattern table as a set\<close>

lemma filter_at_most_one:
  assumes "distinct (map f xs)" and "\<forall>x\<in>set xs. P x \<longrightarrow> f x = k"
  shows "length (filter P xs) \<le> 1"
  using assms
proof (induction xs)
  case Nil
  then show ?case by simp
next
  case (Cons x xs)
  have ih: "length (filter P xs) \<le> 1" using Cons by simp
  show ?case
  proof (cases "P x")
    case False
    then show ?thesis using ih by simp
  next
    case True
    then have fx: "f x = k" using Cons.prems(2) by simp
    have "filter P xs = []"
    proof (rule ccontr)
      assume "filter P xs \<noteq> []"
      then obtain y where y: "y \<in> set xs" "P y"
        by (metis filter_False)
      then have "f y = k" using Cons.prems(2) by simp
      then have "f x \<in> f ` set xs" using fx y(1) by force
      then show False using Cons.prems(1) by simp
    qed
    then show ?thesis using True by simp
  qed
qed

lemma opcodes_distinct: "distinct (map (\<lambda>(name, p). opcode_of p) COMPACT_IR_PATTERNS)"
  by (simp add: COMPACT_IR_PATTERNS_def opcode_of_def)

lemma match_loop_set:
  "set pats = set pats' \<Longrightarrow> match_loop pats line n = match_loop pats' line n"
  by (simp add: match_loop_iff list_ex_iff)

lemma bad_line_set: "set pats = set pats' \<Longrightarrow> bad_line pats raw = bad_line pats' raw"
  by (simp add: bad_line_def list_ex_iff)

lemma syntax_loop_set:
  "set pats = set pats' \<Longrightarrow> syntax_loop pats i lines n = syntax_loop pats' i lines n"
proof (induction lines arbitrary: i n)
  case Nil
  then show ?case by simp
next
  case (Cons raw lines)
  note eq = bad_line_set [OF Cons.prems, of raw]
  show ?case
  proof (cases "bad_line pats raw")
    case True
    then have "bad_line pats' raw" using eq by simp
    then show ?thesis using True
      by (simp add: syntax_loop_step_bad del: syntax_loop.simps)
  next
    case False
    then have "\<not> bad_line pats' raw" using eq by simp
    then show ?thesis using False Cons.IH [OF Cons.prems]
      by (simp add: syntax_loop_step_good del: syntax_loop.simps)
  qed
qed


section \<open>Reference operands of well-formed lines\<close>

lemma digits_ok_all: "t \<noteq> [] \<Longrightarrow> list_all isdecimal t \<Longrightarrow> digits_ok t"
proof (induction t rule: digits_ok.induct)
  case 1
  then show ?case by simp
next
  case (2 c)
  then show ?case by simp
next
  case (3 c d r)
  have "isdecimal d" using 3(4) by simp
  then have "d \<noteq> CHR ''_''" by (auto simp: isdecimal_def)
  then show ?case using 3 by simp
qed

lemma isdecimal_not_space: "isdecimal c \<Longrightarrow> \<not> isspace c"
  by (auto simp: isdecimal_def isspace_def)

lemma py_strip_nonspace:
  assumes "\<forall>c\<in>set t. \<not> isspace c"
  shows "py_strip t = t"
proof (cases "t = []")
  case True
  then show ?thesis by (simp add: py_strip_def)
next
  case False
  then have "\<not> isspace (hd t) \<and> \<not> isspace (last t)" using assms by simp
  then have "py_strip ([] @ t @ []) = t" by (intro py_strip_sandwich) simp_all
  then show ?thesis by simp
qed

lemma foldl_digits_nonneg:
  "0 \<le> acc \<Longrightarrow> list_all isdecimal t \<Longrightarrow>
   0 \<le> foldl (\<lambda>acc c. 10 * acc + digit_val c) acc t"
proof (induction t arbitrary: acc)
  case Nil
  then show ?case by simp
next
  case (Cons c t)
  have "0 \<le> digit_val c" using Cons.prems(2) by (simp add: digit_val_def isdecimal_def)
  then have "0 \<le> 10 * acc + digit_val c" using Cons.prems(1) by simp
  then show ?case using Cons by simp
qed

lemma py_int_ref:
  assumes "operand_ok NodeRef t"
  shows "py_int t = Some (digits_value t) \<and> 0 \<le> digits_value t"
proof -
  have ne: "t \<noteq> []" and all: "list_all isdecimal t" using assms by simp_all
  have ns: "\<forall>c\<in>set t. \<not> isspace c"
    using all isdecimal_not_space by (auto simp: list_all_iff)
  have strip: "py_strip t = t" by (rule py_strip_nonspace [OF ns])
  obtain c r where t: "t = c # r" using ne by (cases t) auto
  have "isdecimal c" using all t by simp
  then have c: "c \<noteq> CHR ''-''" "c \<noteq> CHR ''+''" by (auto simp: isdecimal_def)
  have ok: "digits_ok (c # r)" using digits_ok_all [OF ne all] t by simp
  have 1: "py_int t = Some (digits_value t)"
    unfolding py_int_def strip using c ok by (simp add: t)
  have "filter isdecimal t = t" using all by (simp add: list_all_iff)
  then have 2: "0 \<le> digits_value t"
    unfolding digits_value_def using foldl_digits_nonneg [of 0 t] all by simp
  show ?thesis using 1 2 by simp
qed

lemma well_formed_cases:
  assumes "well_formed parts"
  obtains (transform) op a b c d where "parts = [op, a, b, c, d]"
      "op = ''T'' \<or> op = ''R'' \<or> op = ''SC''" "operand_ok NodeRef a"
  | (boolean) op a b where "parts = [op, a, b]"
      "op = ''U'' \<or> op = ''D'' \<or> op = ''I''" "operand_ok NodeRef a" "operand_ok NodeRef b"
  | (primitive) op args where "parts = op # args"
      "op = ''C'' \<or> op = ''Y'' \<or> op = ''S'' \<or> op = ''K''"
proof -
  obtain op args kinds where p: "parts = op # args" and k: "operands_of op = Some kinds"
    and a: "list_all2 operand_ok kinds args"
    using assms by (auto simp: well_formed_def split: list.splits option.splits)
  consider "op = ''T'' \<or> op = ''R'' \<or> op = ''SC''" | "op = ''U'' \<or> op = ''D'' \<or> op = ''I''"
    | "op = ''C'' \<or> op = ''Y'' \<or> op = ''S'' \<or> op = ''K''"
    using k by (auto simp: operands_of_def split: if_splits)
  then show ?thesis
  proof cases
    case 1
    then have "\<exists>k2 k3 k4. kinds = [NodeRef, k2, k3, k4]"
      using k by (auto simp: operands_of_def split: if_splits)
    then obtain a1 b1 c1 d1 where "args = [a1, b1, c1, d1]" "operand_ok NodeRef a1"
      using a by (auto simp: list_all2_Cons1)
    then show ?thesis using transform p 1 by blast
  next
    case 2
    then have "kinds = [NodeRef, NodeRef]"
      using k by (auto simp: operands_of_def split: if_splits)
    then obtain a1 b1 where "args = [a1, b1]" "operand_ok NodeRef a1" "operand_ok NodeRef b1"
      using a by (auto simp: list_all2_Cons1)
    then show ?thesis using boolean p 2 by blast
  next
    case 3
    then show ?thesis using primitive p by blast
  qed
qed

lemma check_line_well_formed:
  assumes "well_formed (split_ws line)"
  shows "(\<exists>r. check_line line ni = Inr r)
       \<and> (check_line line ni = Inr None \<longleftrightarrow> \<not> dangling line ni)"
  using assms
proof (cases rule: well_formed_cases)
  case (transform op a b c d)
  have "py_int a = Some (digits_value a)" using py_int_ref [OF transform(3)] by simp
  then show ?thesis
    using transform(1,2)
    by (auto simp: check_line_def dangling_def ref_operands_def Let_def)
next
  case (boolean op a b)
  have "py_int a = Some (digits_value a)" "py_int b = Some (digits_value b)"
    using py_int_ref [OF boolean(3)] py_int_ref [OF boolean(4)] by simp_all
  then show ?thesis
    using boolean(1,2)
    by (auto simp: check_line_def dangling_def ref_operands_def Let_def)
next
  case (primitive op args)
  then show ?thesis
    by (auto simp: check_line_def dangling_def ref_operands_def Let_def)
qed

lemma dangling_kind:
  "error_kind_of (''Invalid reference '' @ x) = Some DanglingReference"
  "error_kind_of (''Invalid references '' @ x) = Some DanglingReference"
  by (simp_all add: error_kind_of_def starts_with_def)

lemma check_line_kind:
  assumes "check_line line ni = Inr (Some msg)"
  shows "error_kind_of msg = Some DanglingReference"
proof -
  have "(\<exists>x. msg = ''Invalid reference '' @ x) \<or> (\<exists>x. msg = ''Invalid references '' @ x)"
    using assms unfolding check_line_def Let_def
    by (auto split: list.splits if_splits option.splits)
  then show ?thesis using dangling_kind by blast
qed

lemma reference_loop_blank:
  "py_strip raw = [] \<Longrightarrow> reference_loop (raw # lines) ni = reference_loop lines ni"
  by simp

lemma reference_loop_pass:
  "py_strip raw \<noteq> [] \<Longrightarrow> check_line (py_strip raw) ni = Inr None \<Longrightarrow>
   reference_loop (raw # lines) ni = reference_loop lines (ni + 1)"
  by simp

lemma reference_loop_fail:
  "py_strip raw \<noteq> [] \<Longrightarrow> check_line (py_strip raw) ni = Inr (Some msg) \<Longrightarrow>
   reference_loop (raw # lines) ni = Inr (False, Some msg)"
  by simp

lemma ex_less_Suc_shift: "(\<exists>k<Suc n. P k) \<longleftrightarrow> P 0 \<or> (\<exists>k<n. P (Suc k))"
  by (metis less_Suc_eq_0_disj)

lemma reference_loop_spec:
  assumes "\<forall>raw\<in>set raws. py_strip raw = [] \<or> well_formed (split_ws (py_strip raw))"
  shows "if \<exists>k<length (filter (\<lambda>l. l \<noteq> []) (map py_strip raws)).
              dangling (filter (\<lambda>l. l \<noteq> []) (map py_strip raws) ! k) (ni + int k)
         then \<exists>msg. reference_loop raws ni = Inr (False, Some msg)
                \<and> error_kind_of msg = Some DanglingReference
         else reference_loop raws ni = Inr (True, None)"
  using assms
proof (induction raws arbitrary: ni)
  case Nil
  then show ?case by simp
next
  case (Cons raw raws)
  let ?ls = "filter (\<lambda>l. l \<noteq> []) (map py_strip raws)"
  have rest: "\<forall>raw\<in>set raws. py_strip raw = [] \<or> well_formed (split_ws (py_strip raw))"
    using Cons.prems by simp
  note ih = Cons.IH [OF rest]
  show ?case
  proof (cases "py_strip raw = []")
    case True
    then have "filter (\<lambda>l. l \<noteq> []) (map py_strip (raw # raws)) = ?ls" by simp
    then show ?thesis
      using ih [of ni] unfolding reference_loop_blank [OF True] by simp
  next
    case False
    then have wf: "well_formed (split_ws (py_strip raw))" using Cons.prems by simp
    have ls: "filter (\<lambda>l. l \<noteq> []) (map py_strip (raw # raws)) = py_strip raw # ?ls"
      using False by simp
    have ex: "(\<exists>k<length (py_strip raw # ?ls). dangling ((py_strip raw # ?ls) ! k) (ni + int k))
        \<longleftrightarrow> dangling (py_strip raw) ni
            \<or> (\<exists>k<length ?ls. dangling (?ls ! k) (ni + 1 + int k))"
      by (simp add: ex_less_Suc_shift add.assoc)
    show ?thesis
    proof (cases "dangling (py_strip raw) ni")
      case True
      then obtain msg where msg: "check_line (py_strip raw) ni = Inr (Some msg)"
        using check_line_well_formed [OF wf, of ni] by (cases "check_line (py_strip raw) ni") auto
      have "reference_loop (raw # raws) ni = Inr (False, Some msg)"
        by (rule reference_loop_fail [OF False msg])
      moreover have "error_kind_of msg = Some DanglingReference"
        by (rule check_line_kind [OF msg])
      ultimately show ?thesis unfolding ls ex using True by simp
    next
      case nd: False
      then have "check_line (py_strip raw) ni = Inr None"
        using check_line_well_formed [OF wf, of ni] by simp
      then have "reference_loop (raw # raws) ni = reference_loop raws (ni + 1)"
        by (rule reference_loop_pass [OF False])
      then show ?thesis unfolding ls ex using nd ih [of "ni + 1"] by simp
    qed
  qed
qed

lemma valid_syntax_lines:
  assumes "validate_syntax ir = (True, None)"
  shows "\<forall>raw\<in>set (split_on (CHR 0x0A) (py_strip ir)).
           py_strip raw = [] \<or> well_formed (split_ws (py_strip raw))"
proof -
  have "\<forall>raw\<in>set (split_on (CHR 0x0A) (py_strip ir)). \<not> bad_line COMPACT_IR_PATTERNS raw"
    using assms validate_syntax_valid_iff [of COMPACT_IR_PATTERNS ir]
    by (simp add: validate_syntax_def)
  then show ?thesis
    unfolding bad_line_table using line_matches_well_formed by blast
qed

lemma validate_syntax_True: "fst (validate_syntax ir) \<Longrightarrow> validate_syntax ir = (True, None)"
  by (auto simp: validate_syntax_def validate_syntax_with_def split: sum.splits if_splits)

lemma validate_references_total:
  assumes "validate_syntax ir = (True, None)"
  shows "\<exists>v. validate_references ir = Inr v"
  using reference_loop_spec [OF valid_syntax_lines [OF assms], of 0]
  unfolding validate_references_def by (auto split: if_splits)

lemma is_ir_valid_total: "\<exists>v. is_ir_valid ir = Inr v"
proof (cases "fst (validate_syntax ir)")
  case True
  then have v: "validate_syntax ir = (True, None)" by (rule validate_syntax_True)
  obtain r where "validate_references ir = Inr r"
    using validate_references_total [OF v] by blast
  then show ?thesis using v by (cases r) (auto simp: is_ir_valid_def)
next
  case False
  then obtain e where "validate_syntax ir = (False, e)" by (cases "validate_syntax ir") auto
  then show ?thesis by (auto simp: is_ir_valid_def)
qed

lemma evaluate_single_total:
  "\<exists>m. evaluate_single gen target validate_geometry has_engine = Inr m
       \<and> exact_match m = (py_strip target = py_strip gen)"
proof -
  obtain v where "is_ir_valid gen = Inr v" using is_ir_valid_total by blast
  then show ?thesis by (cases v) (simp add: evaluate_single_def)
qed



section \<open>Empty input and the unreachable branch\<close>

text \<open>
  Claim C3. For every string that is empty or consists only of whitespace,
  \<open>validate_syntax\<close> returns the failure verdict with the message \<open>Empty IR\<close>
  (kind \<open>EmptyInput\<close>), and so does the combined check, as a returned verdict and
  not as an exception.
\<close>

theorem empty_input:
  assumes "\<forall>c\<in>set s. isspace c"
  shows "validate_syntax s = (False, Some ''Empty IR'')
       \<and> is_ir_valid s = Inr (False, Some ''Empty IR'')
       \<and> error_kind_of ''Empty IR'' = Some EmptyInput"
proof -
  have "py_strip s = []" using assms by (simp add: py_strip_Nil_iff)
  then have v: "validate_syntax s = (False, Some ''Empty IR'')"
    by (simp add: validate_syntax_def validate_syntax_with_def)
  then show ?thesis by (simp add: is_ir_valid_def error_kind_of_def)
qed

theorem empty_input_witness:
  "validate_syntax [CHR '' '', CHR 0x0A, CHR 0x09] = (False, Some ''Empty IR'')
   \<and> is_ir_valid [CHR '' '', CHR 0x0A, CHR 0x09] = Inr (False, Some ''Empty IR'')"
  using empty_input [of "[CHR '' '', CHR 0x0A, CHR 0x09]"] by (simp add: isspace_def)

text \<open>
  Claim C4. For every input string, \<open>validate_syntax\<close> never returns the message
  \<open>No valid operations found\<close>: once the input is not empty after trimming, its
  first line is not blank, so the loop either returns a syntax error or counts a node.
\<close>

theorem no_valid_operations_unreachable:
  "snd (validate_syntax ir) \<noteq> Some ''No valid operations found''"
proof (cases "ir = [] \<or> py_strip ir = []")
  case True
  then show ?thesis by (simp add: validate_syntax_def validate_syntax_with_def)
next
  case False
  then have ne: "py_strip ir \<noteq> []" by simp
  show ?thesis
  proof (cases "syntax_loop COMPACT_IR_PATTERNS 0 (split_on (CHR 0x0A) (py_strip ir)) 0")
    case (Inl msg)
    then have "starts_with ''Invalid syntax at line '' msg" by (rule syntax_loop_msg)
    then have "msg \<noteq> ''No valid operations found''" by (auto simp: starts_with_def)
    then show ?thesis using False Inl by (simp add: validate_syntax_def validate_syntax_with_def)
  next
    case (Inr n)
    then have "0 < n" using syntax_loop_first [OF ne] by blast
    then show ?thesis using False Inr by (simp add: validate_syntax_def validate_syntax_with_def)
  qed
qed

section \<open>Aggregation and absent geometry verdicts\<close>

text \<open>
  Claim C10. In the aggregation of \<open>evaluate_model\<close> and in \<open>compute_metrics\<close>, an
  example is always counted in the total, and it is counted as geometry-valid only
  when its \<open>geometry_valid\<close> field is exactly \<open>True\<close>. An example whose field is
  absent gives the same aggregate, and the same metrics, as one whose field is
  \<open>False\<close>.
\<close>

theorem absent_geometry:
  fixes truediv :: "int \<Rightarrow> int \<Rightarrow> 'f" and zero :: 'f
  shows
  "total (aggregate truediv zero (rs1 @ r\<lparr>geometry_valid := g\<rparr> # rs2) errs)
     = total (aggregate truediv zero (rs1 @ rs2) errs) + 1
   \<and> n_geometry_valid (aggregate truediv zero (rs1 @ r\<lparr>geometry_valid := g\<rparr> # rs2) errs)
     = n_geometry_valid (aggregate truediv zero (rs1 @ rs2) errs) + (if g = Some True then 1 else 0)
   \<and> aggregate truediv zero (rs1 @ r\<lparr>geometry_valid := None\<rparr> # rs2) errs
     = aggregate truediv zero (rs1 @ r\<lparr>geometry_valid := Some False\<rparr> # rs2) errs
   \<and> compute_metrics truediv zero (rs1 @ r\<lparr>geometry_valid := None\<rparr> # rs2)
     = compute_metrics truediv zero (rs1 @ r\<lparr>geometry_valid := Some False\<rparr> # rs2)
   \<and> map_of (compute_metrics truediv zero (rs1 @ r\<lparr>geometry_valid := None\<rparr> # rs2))
         ''geometry_accuracy''
     = Some (truediv (count_if (\<lambda>x. geometry_valid x = Some True) (rs1 @ rs2))
                     (int (length (rs1 @ rs2)) + 1))"
  by (simp add: aggregate_def compute_metrics_def Let_def count_if_append count_if_Cons ac_simps)

theorem absent_geometry_witness:
  "n_geometry_valid (aggregate Pair (0, 1)
      [\<lparr>syntax_valid = True, geometry_valid = Some True, exact_match = False,
         generated_ir = ''S 1'', error_message = None\<rparr>,
       \<lparr>syntax_valid = True, geometry_valid = None, exact_match = False,
         generated_ir = ''S 2'', error_message = None\<rparr>] Map.empty) = 1
   \<and> geometry_accuracy (aggregate Pair (0, 1)
      [\<lparr>syntax_valid = True, geometry_valid = Some True, exact_match = False,
         generated_ir = ''S 1'', error_message = None\<rparr>,
       \<lparr>syntax_valid = True, geometry_valid = None, exact_match = False,
         generated_ir = ''S 2'', error_message = None\<rparr>] Map.empty) = (1, 2)"
  using absent_geometry [where truediv = Pair and zero = "(0, 1)"
      and ?rs1.0 = "[\<lparr>syntax_valid = True, geometry_valid = Some True, exact_match = False,
          generated_ir = ''S 1'', error_message = None\<rparr>]"
      and r = "\<lparr>syntax_valid = True, geometry_valid = None, exact_match = False,
          generated_ir = ''S 2'', error_message = None\<rparr>"
      and g = None and ?rs2.0 = "[]" and errs = Map.empty]
  by (simp add: aggregate_def count_if_def)

section \<open>The keys of the error histogram\<close>

text \<open>
  Claim C8. Two failing verdicts of one error kind should have one histogram key, the
  message text before its first colon. On the code, two syntax errors on different
  lines have different keys, because the line number comes before the colon, and two
  dangling references have their whole messages as keys, because these messages have
  no colon: a run with syntax errors on lines 1 and 2 fills two buckets.
\<close>

theorem histogram_key_varies:
  "is_ir_valid ''X'' = Inr (False, Some ''Invalid syntax at line 1: X'')
   \<and> is_ir_valid ''C 1 1 1\<newline>X'' = Inr (False, Some ''Invalid syntax at line 2: X'')
   \<and> error_kind_of ''Invalid syntax at line 1: X'' = Some SyntaxError
   \<and> error_kind_of ''Invalid syntax at line 2: X'' = Some SyntaxError
   \<and> error_type ''Invalid syntax at line 1: X'' = ''Invalid syntax at line 1''
   \<and> error_type ''Invalid syntax at line 2: X'' = ''Invalid syntax at line 2''
   \<and> is_ir_valid ''T 0 0 0 0'' = Inr (False, Some ''Invalid reference 0 at node 0'')
   \<and> is_ir_valid ''T 1 0 0 0'' = Inr (False, Some ''Invalid reference 1 at node 0'')
   \<and> error_kind_of ''Invalid reference 0 at node 0'' = Some DanglingReference
   \<and> error_kind_of ''Invalid reference 1 at node 0'' = Some DanglingReference
   \<and> error_type ''Invalid reference 0 at node 0'' = ''Invalid reference 0 at node 0''
   \<and> error_type ''Invalid reference 1 at node 0'' = ''Invalid reference 1 at node 0''
   \<and> (\<exists>m. evaluate_model Pair (0, 1)
             [(''X'', ''S 1''), (''C 1 1 1\<newline>X'', ''S 1'')] False False None = Inr m
          \<and> errors m ''Invalid syntax at line 1'' = Some 1
          \<and> errors m ''Invalid syntax at line 2'' = Some 1)"
  by (simp add: eval_simps evaluate_model_def evaluate_single_def record_error_def aggregate_def)

section \<open>The first syntax error\<close>

text \<open>
  Claim C2, as the code has it. When the input has a non-blank line that no pattern
  matches, \<open>validate_syntax\<close> fails at the first such line with a syntax error
  message that names the line's 1-based number counted from the first non-blank line
  of the input (the leading blank lines are not counted) and an excerpt of at most 50
  characters of the trimmed line; the verdict is the same for every input that agrees
  with this one up to that line.
\<close>

theorem first_syntax_error:
  assumes "\<exists>raw\<in>set (split_on (CHR 0x0A) ir). bad_line COMPACT_IR_PATTERNS raw"
  shows "\<exists>j<length (split_on (CHR 0x0A) ir).
           bad_line COMPACT_IR_PATTERNS (split_on (CHR 0x0A) ir ! j)
         \<and> (\<forall>k<j. \<not> bad_line COMPACT_IR_PATTERNS (split_on (CHR 0x0A) ir ! k))
         \<and> leading_blank_lines ir \<le> j
         \<and> validate_syntax ir =
             (False, Some (''Invalid syntax at line ''
                           @ str_int (int (j - leading_blank_lines ir) + 1) @ '': ''
                           @ take 50 (py_strip (split_on (CHR 0x0A) ir ! j))))
         \<and> error_kind_of (''Invalid syntax at line ''
                           @ str_int (int (j - leading_blank_lines ir) + 1) @ '': ''
                           @ take 50 (py_strip (split_on (CHR 0x0A) ir ! j)))
             = Some SyntaxError
         \<and> length (take 50 (py_strip (split_on (CHR 0x0A) ir ! j))) \<le> 50
         \<and> (\<forall>ir'. take (Suc j) (split_on (CHR 0x0A) ir') = take (Suc j) (split_on (CHR 0x0A) ir)
                \<longrightarrow> validate_syntax ir' = validate_syntax ir)"
proof -
  let ?ls = "split_on (CHR 0x0A) ir"
  let ?blank = "\<lambda>raw. py_strip raw = []"
  obtain j where j: "j < length ?ls" "bad_line COMPACT_IR_PATTERNS (?ls ! j)"
      "\<forall>k<j. \<not> bad_line COMPACT_IR_PATTERNS (?ls ! k)"
    using first_bad_exists [OF assms] by blast
  let ?msg = "''Invalid syntax at line '' @ str_int (int (j - leading_blank_lines ir) + 1)
              @ '': '' @ take 50 (py_strip (?ls ! j))"
  note main = first_bad_in_input [OF j]
  have lb: "leading_blank_lines ir \<le> j" using main by simp
  have v: "validate_syntax ir = (False, Some ?msg)"
    unfolding validate_syntax_def using main by simp
  have k: "error_kind_of ?msg = Some SyntaxError"
    by (rule syntax_error_kind) (simp add: starts_with_def)
  have len: "length (take 50 (py_strip (?ls ! j))) \<le> 50" by simp
  have nbj: "\<not> ?blank (?ls ! j)" using j(2) by (simp add: bad_line_def)
  have indep: "\<forall>ir'. take (Suc j) (split_on (CHR 0x0A) ir') = take (Suc j) ?ls
                \<longrightarrow> validate_syntax ir' = validate_syntax ir"
  proof (intro allI impI)
    fix ir'
    let ?ls' = "split_on (CHR 0x0A) ir'"
    assume t: "take (Suc j) ?ls' = take (Suc j) ?ls"
    have "length (take (Suc j) ?ls') = Suc j" using j(1) t by simp
    then have j': "j < length ?ls'" by simp
    have nth: "\<And>k. k \<le> j \<Longrightarrow> ?ls' ! k = ?ls ! k"
    proof -
      fix k assume "k \<le> j"
      then have "k < Suc j" by simp
      then have "take (Suc j) ?ls' ! k = ?ls' ! k" "take (Suc j) ?ls ! k = ?ls ! k"
        by simp_all
      then show "?ls' ! k = ?ls ! k" using t by simp
    qed
    have b: "bad_line COMPACT_IR_PATTERNS (?ls' ! j)" using j(2) nth [of j] by simp
    have g: "\<forall>k<j. \<not> bad_line COMPACT_IR_PATTERNS (?ls' ! k)" using j(3) nth by simp
    have "takeWhile ?blank ?ls' = takeWhile ?blank (take (Suc j) ?ls')"
      using takeWhile_take [of j ?ls' ?blank] j' nbj nth [of j] by simp
    also have "\<dots> = takeWhile ?blank ?ls"
      unfolding t using takeWhile_take [of j ?ls ?blank] j(1) nbj by simp
    finally have lbeq: "leading_blank_lines ir' = leading_blank_lines ir"
      by (simp add: leading_blank_lines_def)
    have "validate_syntax ir' =
        (False, Some (''Invalid syntax at line ''
                      @ str_int (int (j - leading_blank_lines ir') + 1) @ '': ''
                      @ take 50 (py_strip (?ls' ! j))))"
      unfolding validate_syntax_def using first_bad_in_input [OF j' b g] by simp
    then show "validate_syntax ir' = validate_syntax ir" using v nth [of j] lbeq by simp
  qed
  show ?thesis
    by (rule exI [of _ j]) (intro conjI j lb v k len indep)
qed

theorem first_syntax_error_witness:
  "bad_line COMPACT_IR_PATTERNS (split_on (CHR 0x0A) ''\<newline>C 1 1 1\<newline>\<newline>C 1 2\<newline>X'' ! 3)
   \<and> leading_blank_lines ''\<newline>C 1 1 1\<newline>\<newline>C 1 2\<newline>X'' = 1
   \<and> validate_syntax ''\<newline>C 1 1 1\<newline>\<newline>C 1 2\<newline>X''
       = (False, Some ''Invalid syntax at line 3: C 1 2'')"
proof -
  have b: "bad_line COMPACT_IR_PATTERNS (split_on (CHR 0x0A) ''\<newline>C 1 1 1\<newline>\<newline>C 1 2\<newline>X'' ! 3)"
    by (simp add: eval_simps bad_line_def)
  have h: "\<exists>raw\<in>set (split_on (CHR 0x0A) ''\<newline>C 1 1 1\<newline>\<newline>C 1 2\<newline>X'').
             bad_line COMPACT_IR_PATTERNS raw"
    by (simp add: eval_simps bad_line_def)
  have l: "leading_blank_lines ''\<newline>C 1 1 1\<newline>\<newline>C 1 2\<newline>X'' = 1"
    by (simp add: eval_simps leading_blank_lines_def)
  have v: "validate_syntax ''\<newline>C 1 1 1\<newline>\<newline>C 1 2\<newline>X''
       = (False, Some ''Invalid syntax at line 3: C 1 2'')"
    by (simp add: eval_simps)
  from first_syntax_error [OF h] b l v show ?thesis by blast
qed

text \<open>
  The claim as stated names the line's number in the input. Leading blank lines are
  removed by the trimming before the lines are numbered: here the offending line is
  the third line of the input, and the message names line 1.
\<close>

theorem leading_blank_lines_counterexample:
  "split_on (CHR 0x0A) ''\<newline>\<newline>X 1'' = ['''', '''', ''X 1'']
   \<and> \<not> bad_line COMPACT_IR_PATTERNS (split_on (CHR 0x0A) ''\<newline>\<newline>X 1'' ! 0)
   \<and> \<not> bad_line COMPACT_IR_PATTERNS (split_on (CHR 0x0A) ''\<newline>\<newline>X 1'' ! 1)
   \<and> bad_line COMPACT_IR_PATTERNS (split_on (CHR 0x0A) ''\<newline>\<newline>X 1'' ! 2)
   \<and> validate_syntax ''\<newline>\<newline>X 1'' = (False, Some ''Invalid syntax at line 1: X 1'')
   \<and> validate_syntax ''\<newline>\<newline>X 1'' \<noteq> (False, Some ''Invalid syntax at line 3: X 1'')"
  by (simp add: eval_simps bad_line_def)

section \<open>Disjoint patterns\<close>

text \<open>
  Claim C9. Every line matches at most one of the ten patterns, and the result of the
  inner loop, of the outer loop (message or node count) and of \<open>validate_syntax\<close>
  is the same for every table with the same entries in another order.
\<close>

theorem patterns_disjoint:
  "length (filter (\<lambda>(name, p). re_match p line) COMPACT_IR_PATTERNS) \<le> 1
   \<and> (set pats = set COMPACT_IR_PATTERNS \<longrightarrow>
        match_loop pats line n = match_loop COMPACT_IR_PATTERNS line n
      \<and> syntax_loop pats i lines n = syntax_loop COMPACT_IR_PATTERNS i lines n
      \<and> validate_syntax_with pats ir = validate_syntax ir)"
proof -
  have "\<forall>x\<in>set COMPACT_IR_PATTERNS.
          (case x of (name, p) \<Rightarrow> re_match p line) \<longrightarrow>
          (case x of (name, p) \<Rightarrow> opcode_of p) = hd (split_ws line)"
    using pattern_tokens [of _ _ line] by auto
  then have 1: "length (filter (\<lambda>(name, p). re_match p line) COMPACT_IR_PATTERNS) \<le> 1"
    by (rule filter_at_most_one [OF opcodes_distinct])
  have 2: "set pats = set COMPACT_IR_PATTERNS \<longrightarrow>
        match_loop pats line n = match_loop COMPACT_IR_PATTERNS line n
      \<and> syntax_loop pats i lines n = syntax_loop COMPACT_IR_PATTERNS i lines n
      \<and> validate_syntax_with pats ir = validate_syntax ir"
  proof (intro impI conjI)
    assume s: "set pats = set COMPACT_IR_PATTERNS"
    show "match_loop pats line n = match_loop COMPACT_IR_PATTERNS line n"
      by (rule match_loop_set [OF s])
    show "syntax_loop pats i lines n = syntax_loop COMPACT_IR_PATTERNS i lines n"
      by (rule syntax_loop_set [OF s])
    show "validate_syntax_with pats ir = validate_syntax ir"
      unfolding validate_syntax_def validate_syntax_with_def syntax_loop_set [OF s] ..
  qed
  show ?thesis using 1 2 by (rule conjI)
qed

theorem patterns_disjoint_witness:
  "filter (\<lambda>(name, p). re_match p ''SC 0 1 1 1'') COMPACT_IR_PATTERNS
     = [(''scale'', [lit CHR ''S'', lit CHR ''C'', ws, ref, ws, num, ws, num, ws, num])]
   \<and> validate_syntax_with (rev COMPACT_IR_PATTERNS) ''S 1\<newline>SC 0 1 1 1''
     = validate_syntax ''S 1\<newline>SC 0 1 1 1''"
proof -
  have f: "filter (\<lambda>(name, p). re_match p ''SC 0 1 1 1'') COMPACT_IR_PATTERNS
     = [(''scale'', [lit CHR ''S'', lit CHR ''C'', ws, ref, ws, num, ws, num, ws, num])]"
    by (simp add: eval_simps)
  have s: "set (rev COMPACT_IR_PATTERNS) = set COMPACT_IR_PATTERNS" by simp
  from patterns_disjoint [of "''SC 0 1 1 1''" "rev COMPACT_IR_PATTERNS" 0 0 "[]" "''S 1\<newline>SC 0 1 1 1''"] s f
  show ?thesis by blast
qed

section \<open>What the grammar accepts\<close>




section \<open>Reference monotonicity\<close>



section \<open>Totality of the validity check\<close>



section \<open>Exact match\<close>

text \<open>
  Claim C7. The \<open>exact_match\<close> field is true exactly when target and generated text
  are the same after trimming each of leading and trailing whitespace; whitespace
  inside is compared as it is.
\<close>

theorem exact_match_trimmed:
  "\<exists>m. evaluate_single gen target validate_geometry has_engine = Inr m
      \<and> (exact_match m \<longleftrightarrow> (\<exists>core. trims_to target core \<and> trims_to gen core))"
proof -
  obtain m where m: "evaluate_single gen target validate_geometry has_engine = Inr m"
    "exact_match m = (py_strip target = py_strip gen)"
    using evaluate_single_total by blast
  have "(py_strip target = py_strip gen) \<longleftrightarrow> (\<exists>core. trims_to target core \<and> trims_to gen core)"
    by (simp add: trims_to_py_strip)
  then show ?thesis using m by simp
qed

theorem exact_match_trimmed_witness:
  "evaluate_single ''  C 1 1 1\<newline>'' ''C 1 1 1'' False False
     = Inr \<lparr>syntax_valid = True, geometry_valid = None, exact_match = True,
            generated_ir = ''  C 1 1 1\<newline>'', error_message = None\<rparr>
   \<and> evaluate_single ''C  1 1 1'' ''C 1 1 1'' False False
     = Inr \<lparr>syntax_valid = True, geometry_valid = None, exact_match = False,
            generated_ir = ''C  1 1 1'', error_message = None\<rparr>"
proof -
  have 1: "evaluate_single ''  C 1 1 1\<newline>'' ''C 1 1 1'' False False
     = Inr \<lparr>syntax_valid = True, geometry_valid = None, exact_match = True,
            generated_ir = ''  C 1 1 1\<newline>'', error_message = None\<rparr>"
    by (simp add: eval_simps evaluate_single_def)
  have 2: "evaluate_single ''C  1 1 1'' ''C 1 1 1'' False False
     = Inr \<lparr>syntax_valid = True, geometry_valid = None, exact_match = False,
            generated_ir = ''C  1 1 1'', error_message = None\<rparr>"
    by (simp add: eval_simps evaluate_single_def)
  from exact_match_trimmed [of "''  C 1 1 1\<newline>''" "''C 1 1 1''" False False] 1 2
  show ?thesis by blast
qed

end
